theory Spec2Isabelle
  imports Main "HOL-Library.Word" "HOL-Library.Signed_Division"
begin

section \<open>OpenSnake firmware: storage layout and track selection\<close>

text \<open>
  The sketch \<^verbatim>\<open>Firmware/OpenSnake/OpenSnake.ino\<close> keeps its tracks in the EEPROM of an
  ATmega328. A \<^verbatim>\<open>byte\<close> is an 8-bit word; an EEPROM address is the \<^verbatim>\<open>int\<close> the
  sketch computes (every address it forms lies between 0 and 1023, far from the 16-bit
  limit); the EEPROM is a function from addresses to bytes, and \<^verbatim>\<open>EEPROM.write\<close> is a
  function update.
\<close>

type_synonym byte = "8 word"
type_synonym eeprom = "int \<Rightarrow> byte"

text \<open>Event types (lines 124-127) and user input commands (lines 138-143).\<close>

abbreviation (input) YES :: byte where "YES \<equiv> 1"
abbreviation (input) NO :: byte where "NO \<equiv> 2"
abbreviation (input) SNAKE :: byte where "SNAKE \<equiv> 3"
abbreviation (input) END :: byte where "END \<equiv> 99"

abbreviation (input) RECORD_CMD :: byte where "RECORD_CMD \<equiv> 1"
abbreviation (input) PLAY_CMD :: byte where "PLAY_CMD \<equiv> 2"
abbreviation (input) TRACK_CMD :: byte where "TRACK_CMD \<equiv> 3"
abbreviation (input) YES_CMD :: byte where "YES_CMD \<equiv> 4"
abbreviation (input) NO_CMD :: byte where "NO_CMD \<equiv> 5"
abbreviation (input) SNAKE_CMD :: byte where "SNAKE_CMD \<equiv> 6"

text \<open>
  What the sketch does to the outside, in the order it does it: serial output, waits,
  EEPROM reads, and the three actions \<^verbatim>\<open>yes()\<close>, \<^verbatim>\<open>no()\<close>, \<^verbatim>\<open>snake()\<close> (LED, buzzer and
  servo sequences, kept atomic here), \<^verbatim>\<open>blink_led(pin)\<close> and \<^verbatim>\<open>blink_track(times)\<close>.
\<close>

datatype effect =
    Serial_print string
  | Serial_print_num int
  | Delay int
  | Eeprom_read int
  | Act_yes
  | Act_no
  | Act_snake
  | Blink_led nat
  | Blink_track byte

text \<open>
  \<^verbatim>\<open>get_start_mem_location\<close> (lines 618-626) is a chain of six \<^verbatim>\<open>if (track == n) return\<close>
  statements with nothing after it: for any other byte, control leaves the non-void
  function without a return value. The model returns \<open>None\<close> there.
\<close>

definition get_start_mem_location :: "byte \<Rightarrow> int option" where
  "get_start_mem_location track =
     (if track = 1 then Some 1
      else if track = 2 then Some 100
      else if track = 3 then Some 200
      else if track = 4 then Some 300
      else if track = 5 then Some 400
      else if track = 6 then Some 500
      else None)"

text \<open>
  The bytes of a track: \<^verbatim>\<open>play_track\<close> reads \<^verbatim>\<open>pos\<close> and \<^verbatim>\<open>pos + 1\<close> for
  \<^verbatim>\<open>pos = start, start + 2, ...\<close> while \<^verbatim>\<open>pos <= start + 99\<close> (line 313), that is the
  100 addresses \<open>start .. start + 99\<close>.
\<close>

definition track_region :: "byte \<Rightarrow> int set" where
  "track_region track =
     (case get_start_mem_location track of
        None \<Rightarrow> {}
      | Some start \<Rightarrow> {start .. start + 99})"

text \<open>\<^verbatim>\<open>set_track\<close> (lines 471-475) and \<^verbatim>\<open>increment_track\<close> (lines 477-487).\<close>

definition set_track :: "byte \<Rightarrow> eeprom \<Rightarrow> eeprom" where
  "set_track track ee = ee(0 := track)"

definition increment_track :: "eeprom \<Rightarrow> effect list \<times> eeprom" where
  "increment_track ee =
     (let track = ee 0;
          track = track + 1;
          track = (if track = 6 then 1 else track)
      in ([Serial_print ''Incrementing track...'', Eeprom_read 0,
           Serial_print ''track: '', Serial_print_num (uint track),
           Blink_track track],
          set_track track ee))"

text \<open>
  \<^verbatim>\<open>record_event\<close> (lines 608-616): two EEPROM writes at
  \<^verbatim>\<open>start + recording_length * 2\<close>. \<^verbatim>\<open>recording_length\<close> is a byte, promoted to
  \<^verbatim>\<open>int\<close> before the multiplication, so the offset is at most 510.
\<close>

definition record_event :: "byte \<Rightarrow> byte \<Rightarrow> byte \<Rightarrow> byte \<Rightarrow> eeprom \<Rightarrow> eeprom option" where
  "record_event track event_delay event_type recording_length ee =
     (case get_start_mem_location track of
        None \<Rightarrow> None
      | Some start_mem_location \<Rightarrow>
          (let offset = uint recording_length * 2;
               record_to_location = start_mem_location + offset
           in Some (ee(record_to_location := event_delay,
                       record_to_location + 1 := event_type))))"


section \<open>Playback\<close>

text \<open>
  The \<^verbatim>\<open>switch (event_type)\<close> of \<^verbatim>\<open>play_track\<close> (lines 327-346): what one event does
  after its delay.
\<close>

definition play_event :: "byte \<Rightarrow> effect list" where
  "play_event event_type =
     (if event_type = YES then [Serial_print ''YES'', Act_yes]
      else if event_type = NO then [Serial_print ''NO'', Act_no]
      else if event_type = SNAKE then [Serial_print ''SNAKE'', Act_snake]
      else if event_type = END then [Serial_print ''END'']
      else [Serial_print ''Invalid event type!''])"

text \<open>
  The \<^verbatim>\<open>for\<close> loop of \<^verbatim>\<open>play_track\<close> (lines 313-349), from position \<open>pos\<close> on. The
  delay in milliseconds is an \<^verbatim>\<open>int\<close> of at most 25500, below the 16-bit limit.
\<close>

function play_loop :: "eeprom \<Rightarrow> int \<Rightarrow> int \<Rightarrow> effect list" where
  "play_loop ee start_mem_location pos =
     (if pos \<le> start_mem_location + 99 then
        (let event_delay = uint (ee pos);
             event_type = ee (pos + 1)
         in [Eeprom_read pos, Eeprom_read (pos + 1),
             Serial_print ''event_delay: '', Serial_print_num event_delay,
             Delay (event_delay * 100)]
            @ play_event event_type
            @ (if event_type = END then []
               else play_loop ee start_mem_location (pos + 2)))
      else [])"
  by pat_completeness auto
termination
  by (relation "measure (\<lambda>(ee, start_mem_location, pos). nat (start_mem_location + 100 - pos))") auto

declare play_loop.simps [simp del]

text \<open>
  \<^verbatim>\<open>play_track\<close> (lines 292-351). With no start location there is no region to scan:
  the result is \<open>None\<close>. (The function is declared \<^verbatim>\<open>boolean\<close> and returns nothing; its
  caller ignores the value.)
\<close>

definition play_track :: "eeprom \<Rightarrow> effect list option" where
  "play_track ee =
     (let track = ee 0 in
      case get_start_mem_location track of
        None \<Rightarrow> None
      | Some start_mem_location \<Rightarrow>
          Some ([Eeprom_read 0, Serial_print ''Playing track '', Serial_print_num (uint track),
                 Serial_print ''start_mem_location: '', Serial_print_num start_mem_location]
                @ play_loop ee start_mem_location start_mem_location))"

text \<open>
  The words of the specification, to compare the loop with: the region is a sequence of
  50 (delay, kind) pairs, pair \<open>i\<close> at offset \<open>2 * i\<close>; \<open>first_end\<close> is the index of the
  first pair of kind End, if there is one; \<open>visit\<close> is what playing pair \<open>i\<close> amounts to;
  \<open>is_action\<close> picks the actuator calls out of a trace.
\<close>

definition first_end :: "eeprom \<Rightarrow> int \<Rightarrow> nat option" where
  "first_end ee start = find (\<lambda>i. ee (start + 2 * int i + 1) = END) [0..<50]"

definition visit :: "eeprom \<Rightarrow> int \<Rightarrow> nat \<Rightarrow> effect list" where
  "visit ee start i =
     (let delay_byte = ee (start + 2 * int i);
          kind = ee (start + 2 * int i + 1)
      in [Eeprom_read (start + 2 * int i), Eeprom_read (start + 2 * int i + 1),
          Serial_print ''event_delay: '', Serial_print_num (uint delay_byte),
          Delay (100 * uint delay_byte)]
         @ (if kind = YES then [Serial_print ''YES'', Act_yes]
            else if kind = NO then [Serial_print ''NO'', Act_no]
            else if kind = SNAKE then [Serial_print ''SNAKE'', Act_snake]
            else if kind = END then [Serial_print ''END'']
            else [Serial_print ''Invalid event type!'']))"

fun is_action :: "effect \<Rightarrow> bool" where
  "is_action Act_yes = True"
| "is_action Act_no = True"
| "is_action Act_snake = True"
| "is_action _ = False"

definition visited :: "eeprom \<Rightarrow> int \<Rightarrow> nat" where
  "visited ee start = (case first_end ee start of Some k \<Rightarrow> Suc k | None \<Rightarrow> 50)"


section \<open>Buttons\<close>

text \<open>
  One poll of the six button lines: each field is the value \<^verbatim>\<open>digitalRead\<close> returns for
  that pin. The inputs have pull-ups, so \<open>True\<close> (HIGH) is a released button and \<open>False\<close>
  (LOW) a pressed one. \<^verbatim>\<open>check_buttons\<close> reads the lines within a few microseconds; the
  model takes them from one sample.
\<close>

record pins =
  RECORD_BUTTON :: bool
  PLAY_BUTTON :: bool
  TRACK_SELECT_BUTTON :: bool
  YES_BUTTON :: bool
  NO_BUTTON :: bool
  SNAKE_BUTTON :: bool

text \<open>The globals \<^verbatim>\<open>check_buttons\<close> writes (lines 145-154).\<close>

record buttons =
  userInput :: byte
  recordButtonCounter :: int
  incrementTrackButtonCounter :: int

text \<open>
  The counters are 16-bit \<^verbatim>\<open>int\<close>s. \<^verbatim>\<open>counter++\<close> adds one; at 32767 the C++ is
  undefined and the AVR's addition wraps to -32768, which is what is written here.
\<close>

definition int16_succ :: "int \<Rightarrow> int" where
  "int16_succ c = (if c = 32767 then - 32768 else c + 1)"

text \<open>\<^verbatim>\<open>check_buttons\<close> (lines 508-530).\<close>

definition check_buttons :: "pins \<Rightarrow> buttons \<Rightarrow> bool \<times> buttons" where
  "check_buttons p st =
     (let st = st\<lparr>userInput := 0\<rparr>;
          st = (if RECORD_BUTTON p = True then st\<lparr>recordButtonCounter := 0\<rparr> else st);
          st = (if TRACK_SELECT_BUTTON p = True then st\<lparr>incrementTrackButtonCounter := 0\<rparr>
                else st);
          st = (if PLAY_BUTTON p = False then st\<lparr>userInput := PLAY_CMD\<rparr>
                else if RECORD_BUTTON p = False then
                  st\<lparr>recordButtonCounter := int16_succ (recordButtonCounter st),
                     userInput := RECORD_CMD\<rparr>
                else if TRACK_SELECT_BUTTON p = False then
                  st\<lparr>incrementTrackButtonCounter := int16_succ (incrementTrackButtonCounter st),
                     userInput := TRACK_CMD\<rparr>
                else if YES_BUTTON p = False then st\<lparr>userInput := YES_CMD\<rparr>
                else if NO_BUTTON p = False then st\<lparr>userInput := NO_CMD\<rparr>
                else if SNAKE_BUTTON p = False then st\<lparr>userInput := SNAKE_CMD\<rparr>
                else st)
      in (if userInput st \<noteq> 0 then (True, st) else (False, st)))"

text \<open>
  \<^verbatim>\<open>while (check_buttons() == true);\<close> (lines 454, 542, 601): poll until no button is
  pressed. The polls come from a list of samples; the rest of the list is returned. A
  list that ends before a poll returns false gives \<open>None\<close>: the loop is still waiting.
\<close>

fun wait_for_release :: "pins list \<Rightarrow> buttons \<Rightarrow> (buttons \<times> pins list) option" where
  "wait_for_release [] st = None"
| "wait_for_release (p # polls) st =
     (case check_buttons p st of
        (True, st') \<Rightarrow> wait_for_release polls st'
      | (False, st') \<Rightarrow> Some (st', polls))"

text \<open>
  The specification's view of a poll, to compare \<^verbatim>\<open>check_buttons\<close> with: the commands,
  their priority order, and the first command in that order whose button is pressed.
\<close>

datatype command = Record | Play | SelectTrack | Yes | No | Snake

fun pressed :: "pins \<Rightarrow> command \<Rightarrow> bool" where
  "pressed p Record = (\<not> RECORD_BUTTON p)"
| "pressed p Play = (\<not> PLAY_BUTTON p)"
| "pressed p SelectTrack = (\<not> TRACK_SELECT_BUTTON p)"
| "pressed p Yes = (\<not> YES_BUTTON p)"
| "pressed p No = (\<not> NO_BUTTON p)"
| "pressed p Snake = (\<not> SNAKE_BUTTON p)"

definition priority :: "command list" where
  "priority = [Play, Record, SelectTrack, Yes, No, Snake]"

definition resolve :: "pins \<Rightarrow> command option" where
  "resolve p = find (pressed p) priority"

fun command_code :: "command \<Rightarrow> byte" where
  "command_code Record = RECORD_CMD"
| "command_code Play = PLAY_CMD"
| "command_code SelectTrack = TRACK_CMD"
| "command_code Yes = YES_CMD"
| "command_code No = NO_CMD"
| "command_code Snake = SNAKE_CMD"

section \<open>The main loop\<close>

text \<open>
  One pass of \<^verbatim>\<open>loop()\<close> (lines 269-290) up to the call it makes: the poll, and the
  \<^verbatim>\<open>switch\<close> that picks the function to run. The pass ends with \<^verbatim>\<open>delay(10)\<close>.
\<close>

datatype call =
    Call_record_track
  | Call_play_track
  | Call_increment_track
  | Invalid_userInput byte
  | No_call

definition loop :: "pins \<Rightarrow> buttons \<Rightarrow> call \<times> buttons" where
  "loop p st =
     (case check_buttons p st of
        (True, st') \<Rightarrow>
          (if userInput st' = RECORD_CMD then
             (if recordButtonCounter st' > 200 then (Call_record_track, st') else (No_call, st'))
           else if userInput st' = PLAY_CMD then (Call_play_track, st')
           else if userInput st' = TRACK_CMD then
             (if incrementTrackButtonCounter st' > 200 then (Call_increment_track, st')
              else (No_call, st'))
           else (Invalid_userInput (userInput st'), st'))
      | (False, st') \<Rightarrow> (No_call, st'))"

text \<open>
  Successive passes of \<^verbatim>\<open>loop()\<close>, one per sample, 10 ms apart, up to and including the
  first pass that calls \<^verbatim>\<open>record_track\<close> (which then polls the buttons itself): the list
  of the calls made. \<^verbatim>\<open>play_track\<close> and \<^verbatim>\<open>increment_track\<close> do not poll.
\<close>

fun loop_until_record :: "pins list \<Rightarrow> buttons \<Rightarrow> call list" where
  "loop_until_record [] st = []"
| "loop_until_record (p # samples) st =
     (case loop p st of
        (Call_record_track, st') \<Rightarrow> [Call_record_track]
      | (c, st') \<Rightarrow> c # loop_until_record samples st')"

text \<open>The samples used below: only Record held, and nothing held.\<close>

definition record_held :: pins where
  "record_held = \<lparr>RECORD_BUTTON = False, PLAY_BUTTON = True, TRACK_SELECT_BUTTON = True,
                  YES_BUTTON = True, NO_BUTTON = True, SNAKE_BUTTON = True\<rparr>"

definition all_released :: pins where
  "all_released = \<lparr>RECORD_BUTTON = True, PLAY_BUTTON = True, TRACK_SELECT_BUTTON = True,
                   YES_BUTTON = True, NO_BUTTON = True, SNAKE_BUTTON = True\<rparr>"

text \<open>The globals as initialised at power-on.\<close>

definition power_on :: buttons where
  "power_on = \<lparr>userInput = 0, recordButtonCounter = 0, incrementTrackButtonCounter = 0\<rparr>"


section \<open>Factory reset and start-up\<close>










section \<open>Recording\<close>

text \<open>
  How a function of the sketch can fail to return a result: \<open>No_region\<close>, the current
  track has no start location; \<open>Pending\<close>, the observed inputs (button samples, clock
  readings) end while the function is still running.
\<close>

datatype fault = No_region | Pending

text \<open>
  The state of \<^verbatim>\<open>record_track\<close>: the EEPROM, the globals of \<^verbatim>\<open>check_buttons\<close>, the
  button samples and the values of \<^verbatim>\<open>millis()\<close> still to come (32-bit, in the order the
  sketch asks for them), and the locals \<^verbatim>\<open>last_press_time\<close>, \<^verbatim>\<open>recording_status\<close>,
  \<^verbatim>\<open>recording_length\<close>. \<open>rec_log\<close> is not in the sketch: it lists, for every call of
  \<^verbatim>\<open>record_event\<close>, the milliseconds measured since the last press
  (\<^verbatim>\<open>event_delay_long\<close> as first assigned in line 562) and the event type. The LED
  writes, serial prints, waits and the feedback calls \<^verbatim>\<open>yes()\<close>, \<^verbatim>\<open>no()\<close>, \<^verbatim>\<open>snake()\<close> of
  the recording loop change none of these and are left out.
\<close>

record recording =
  rec_store :: eeprom
  rec_buttons :: buttons
  rec_polls :: "pins list"
  rec_clock :: "32 word list"
  last_press_time :: "32 word"
  recording_status :: bool
  recording_length :: byte
  rec_log :: "(int \<times> byte) list"

text \<open>
  Lines 563-565: from milliseconds (a \<^verbatim>\<open>long\<close>) to the delay byte. C++ division
  truncates towards zero (\<open>sdiv\<close>); the conversion to \<^verbatim>\<open>byte\<close> keeps the low 8 bits.
\<close>

definition event_delay_of :: "int \<Rightarrow> byte" where
  "event_delay_of event_delay_long =
     (let event_delay_long = event_delay_long sdiv 100;
          event_delay_long = (if event_delay_long > 255 then 255 else event_delay_long)
      in word_of_int event_delay_long)"

text \<open>
  The chain of \<^verbatim>\<open>if (userInput == ...)\<close> in lines 574-600, for the command \<open>input\<close>.
\<close>

definition record_press :: "byte \<Rightarrow> int \<Rightarrow> byte \<Rightarrow> recording \<Rightarrow> fault + recording" where
  "record_press track event_delay_long input r =
     (let event_delay = event_delay_of event_delay_long in
      if input = YES_CMD then
        (case record_event track event_delay YES (recording_length r) (rec_store r) of
           None \<Rightarrow> Inl No_region
         | Some ee \<Rightarrow> Inr (r\<lparr>rec_store := ee, recording_length := recording_length r + 1,
                            rec_log := rec_log r @ [(event_delay_long, YES)]\<rparr>))
      else if input = NO_CMD then
        (case record_event track event_delay NO (recording_length r) (rec_store r) of
           None \<Rightarrow> Inl No_region
         | Some ee \<Rightarrow> Inr (r\<lparr>rec_store := ee, recording_length := recording_length r + 1,
                            rec_log := rec_log r @ [(event_delay_long, NO)]\<rparr>))
      else if input = SNAKE_CMD then
        (case record_event track event_delay SNAKE (recording_length r) (rec_store r) of
           None \<Rightarrow> Inl No_region
         | Some ee \<Rightarrow> Inr (r\<lparr>rec_store := ee, recording_length := recording_length r + 1,
                            rec_log := rec_log r @ [(event_delay_long, SNAKE)]\<rparr>))
      else if input = RECORD_CMD then
        (case record_event track event_delay END (recording_length r) (rec_store r) of
           None \<Rightarrow> Inl No_region
         | Some ee \<Rightarrow> Inr (r\<lparr>rec_store := ee, recording_status := False,
                            rec_log := rec_log r @ [(event_delay_long, END)]\<rparr>))
      else Inr r)"

text \<open>
  One pass of the \<^verbatim>\<open>while (recording_status == true)\<close> loop (lines 553-605):
  \<^verbatim>\<open>millis()\<close>, the poll, and for a pressed button the \<^verbatim>\<open>if\<close> chain, the wait for
  release and \<^verbatim>\<open>millis()\<close> again. \<^verbatim>\<open>millis() - last_press_time\<close> is computed on 32 bits
  and read as a signed \<^verbatim>\<open>long\<close>.
\<close>

definition record_body :: "byte \<Rightarrow> recording \<Rightarrow> fault + recording" where
  "record_body track r =
     (case rec_clock r of
        [] \<Rightarrow> Inl Pending
      | now # clock1 \<Rightarrow>
          (let event_delay_long = sint (now - last_press_time r) in
           case rec_polls r of
             [] \<Rightarrow> Inl Pending
           | p # polls1 \<Rightarrow>
               (case check_buttons p (rec_buttons r) of
                  (False, st1) \<Rightarrow>
                    Inr (r\<lparr>rec_buttons := st1, rec_polls := polls1, rec_clock := clock1\<rparr>)
                | (True, st1) \<Rightarrow>
                    (case record_press track event_delay_long (userInput st1) r of
                       Inl f \<Rightarrow> Inl f
                     | Inr r1 \<Rightarrow>
                         (case wait_for_release polls1 st1 of
                            None \<Rightarrow> Inl Pending
                          | Some (st2, polls2) \<Rightarrow>
                              (case clock1 of
                                 [] \<Rightarrow> Inl Pending
                               | now2 # clock2 \<Rightarrow>
                                   Inr (r1\<lparr>rec_buttons := st2, rec_polls := polls2,
                                           rec_clock := clock2,
                                           last_press_time := now2\<rparr>)))))))"

function record_loop :: "byte \<Rightarrow> recording \<Rightarrow> fault + recording" where
  "record_loop track r =
     (if recording_status r then
        (case record_body track r of
           Inl f \<Rightarrow> Inl f
         | Inr r' \<Rightarrow> record_loop track r')
      else Inr r)"
  by pat_completeness auto
termination
proof (relation "measure (\<lambda>(track, r). length (rec_clock r))")
  show "wf (measure (\<lambda>(track, r). length (rec_clock r)))"
    by simp
next
  fix track :: byte and r r' :: recording
  assume "record_body track r = Inr r'"
  then have "length (rec_clock r') < length (rec_clock r)"
    by (auto simp: record_body_def record_press_def Let_def
          split: list.splits prod.splits bool.splits sum.splits option.splits if_splits)
  then show "((track, r'), (track, r)) \<in> measure (\<lambda>(track, r). length (rec_clock r))"
    by simp
qed

declare record_loop.simps [simp del]

text \<open>
  \<^verbatim>\<open>record_track\<close> (lines 532-606): wait for the release of the long press, read the
  current track, take the start time, and run the loop.
\<close>

definition record_track ::
  "eeprom \<Rightarrow> buttons \<Rightarrow> pins list \<Rightarrow> 32 word list \<Rightarrow> fault + recording" where
  "record_track ee st polls clock =
     (case wait_for_release polls st of
        None \<Rightarrow> Inl Pending
      | Some (st', polls') \<Rightarrow>
          (let track = ee 0 in
           case clock of
             [] \<Rightarrow> Inl Pending
           | now # clock' \<Rightarrow>
               record_loop track
                 \<lparr>rec_store = ee, rec_buttons = st', rec_polls = polls', rec_clock = clock',
                  last_press_time = now, recording_status = True, recording_length = 0,
                  rec_log = []\<rparr>))"


text \<open>
  What a session is expected to leave in the region starting at \<open>s\<close>: the logged events,
  one after the other, as (delay byte, type byte) pairs from pair \<open>n\<close> on.
\<close>

fun store_events :: "int \<Rightarrow> nat \<Rightarrow> (int \<times> byte) list \<Rightarrow> eeprom \<Rightarrow> eeprom" where
  "store_events s n [] ee = ee"
| "store_events s n (x # xs) ee =
     store_events s (Suc n) xs
       (ee(s + 2 * int n := event_delay_of (fst x), s + 2 * int n + 1 := snd x))"


text \<open>
  To state what playback gives back: the waits of a trace, in milliseconds; the action of
  a kind; and the specification's conversion of an elapsed time in milliseconds to units
  of 0.1 s, saturated at 255.
\<close>

fun waits :: "effect list \<Rightarrow> int list" where
  "waits [] = []"
| "waits (Delay d # es) = d # waits es"
| "waits (e # es) = waits es"

definition action_of :: "byte \<Rightarrow> effect" where
  "action_of kind = (if kind = YES then Act_yes else if kind = NO then Act_no else Act_snake)"

definition tenths :: "int \<Rightarrow> int" where
  "tenths ms = min 255 (ms div 100)"

text \<open>
  Sample sessions. \<open>yes_held\<close>: only Yes pressed. \<open>polls51\<close> and \<open>clock51\<close>: after the
  release of the long press, 51 presses of Yes, each released again, and then a press of
  Record, with \<^verbatim>\<open>millis()\<close> one second further at each reading.
\<close>

definition yes_held :: pins where
  "yes_held = \<lparr>RECORD_BUTTON = True, PLAY_BUTTON = True, TRACK_SELECT_BUTTON = True,
                YES_BUTTON = False, NO_BUTTON = True, SNAKE_BUTTON = True\<rparr>"

definition polls51 :: "pins list" where
  "polls51 = all_released # concat (replicate 51 [yes_held, all_released])
             @ [record_held, all_released]"

definition clock51 :: "32 word list" where
  "clock51 = map (\<lambda>i. of_nat (1000 * i)) [0..<105]"

text \<open>
  The specification's account of a recording session (its section 4.4), on the inputs
  alone, to compare \<^verbatim>\<open>record_track\<close> with. \<open>pressed_events\<close> is the capture loop from a
  given \<open>last_event_time\<close>: each tick takes the clock and a debounced command, the first
  pressed button in priority order; no command, and the tick is over; otherwise the
  buttons are polled until all are released and the clock is read again, the new
  \<open>last_event_time\<close>. Yes, No and Snake give an event with the time elapsed since
  \<open>last_event_time\<close> (milliseconds on the 32-bit clock), Record gives the last event, any
  other command gives none. The result is the list of events, or \<open>None\<close> when the inputs
  end before the press of Record. \<open>recording_session\<close> is the whole session: the release
  of the long press, the start time, the loop. \<open>action_for\<close> is the action of a command.
  \<open>kind_byte\<close> is the event type of a command (0 for a command that records nothing), and
  \<open>as_long\<close> reads a 32-bit count of milliseconds as a signed \<^verbatim>\<open>long\<close>.
\<close>

fun pressed_events :: "32 word \<Rightarrow> pins list \<Rightarrow> 32 word list \<Rightarrow> (int \<times> command) list option" where
  "pressed_events last_event_time polls [] = None"
| "pressed_events last_event_time [] (now # clock) = None"
| "pressed_events last_event_time (p # polls) (now # clock) =
     (case resolve p of
        None \<Rightarrow> pressed_events last_event_time polls clock
      | Some c \<Rightarrow>
          (case dropWhile (\<lambda>q. resolve q \<noteq> None) polls of
             [] \<Rightarrow> None
           | q # polls' \<Rightarrow>
               (case clock of
                  [] \<Rightarrow> None
                | now2 # clock' \<Rightarrow>
                    (case c of
                       Record \<Rightarrow> Some [(uint (now - last_event_time), Record)]
                     | Play \<Rightarrow> pressed_events now2 polls' clock'
                     | SelectTrack \<Rightarrow> pressed_events now2 polls' clock'
                     | _ \<Rightarrow> map_option ((#) (uint (now - last_event_time), c))
                             (pressed_events now2 polls' clock')))))"

definition recording_session :: "pins list \<Rightarrow> 32 word list \<Rightarrow> (int \<times> command) list option" where
  "recording_session polls clock =
     (case dropWhile (\<lambda>q. resolve q \<noteq> None) polls of
        [] \<Rightarrow> None
      | q # polls' \<Rightarrow>
          (case clock of
             [] \<Rightarrow> None
           | start # clock' \<Rightarrow> pressed_events start polls' clock'))"

fun action_for :: "command \<Rightarrow> effect list" where
  "action_for Yes = [Act_yes]"
| "action_for No = [Act_no]"
| "action_for Snake = [Act_snake]"
| "action_for _ = []"

fun kind_byte :: "command \<Rightarrow> byte" where
  "kind_byte Yes = YES"
| "kind_byte No = NO"
| "kind_byte Snake = SNAKE"
| "kind_byte Record = END"
| "kind_byte _ = 0"

definition as_long :: "int \<Rightarrow> int" where
  "as_long u = sint (word_of_int u :: 32 word)"


text \<open>Two more samples: only No pressed, only Snake pressed.\<close>

definition no_held :: pins where
  "no_held = \<lparr>RECORD_BUTTON = True, PLAY_BUTTON = True, TRACK_SELECT_BUTTON = True,
               YES_BUTTON = True, NO_BUTTON = False, SNAKE_BUTTON = True\<rparr>"

definition snake_held :: pins where
  "snake_held = \<lparr>RECORD_BUTTON = True, PLAY_BUTTON = True, TRACK_SELECT_BUTTON = True,
                  YES_BUTTON = True, NO_BUTTON = True, SNAKE_BUTTON = False\<rparr>"


section \<open>Track selection\<close>

text \<open>
  C5. On the slots 1 to 5, \<^verbatim>\<open>increment_track\<close> maps 5 to 1 and every other slot to the
  next one, stores the new slot in EEPROM cell 0 (and nowhere else), is a bijection of
  the five slots, and five applications bring every slot back to itself.
\<close>

theorem increment_track_cycle:
  assumes "ee 0 \<in> {1, 2, 3, 4, 5}"
  shows "snd (increment_track ee) 0 = (if ee 0 = 5 then 1 else ee 0 + 1)
       \<and> snd (increment_track ee) 0 \<in> {1, 2, 3, 4, 5}
       \<and> snd (increment_track ee) = ee(0 := snd (increment_track ee) 0)
       \<and> ((\<lambda>e. snd (increment_track e)) ^^ 5) ee 0 = ee 0
       \<and> bij_betw (\<lambda>t. snd (increment_track (ee(0 := t))) 0) {1, 2, 3, 4, 5} {1, 2, 3, 4, 5}"
proof -
  have step: "snd (increment_track e) = e(0 := (if e 0 + 1 = 6 then 1 else e 0 + 1))" for e
    by (simp add: increment_track_def set_track_def Let_def)
  have unroll: "(f ^^ 5) e = f (f (f (f (f e))))" for f :: "eeprom \<Rightarrow> eeprom" and e
    by (simp add: numeral_eq_Suc)
  have five: "((\<lambda>e. snd (increment_track e)) ^^ 5) ee 0 = ee 0"
    unfolding unroll using assms by (auto simp: step)
  have bij: "bij_betw (\<lambda>t. snd (increment_track (ee(0 := t))) 0) {1, 2, 3, 4, 5} {1, 2, 3, 4, 5}"
    unfolding bij_betw_def inj_on_def by (auto simp: step)
  show ?thesis
    using assms five bij by (auto simp: step)
qed

theorem increment_track_cycle_witness:
  "((\<lambda>_::int. 255)(0 := 5)) 0 \<in> {1, 2, 3, 4, 5 :: byte}
   \<and> snd (increment_track ((\<lambda>_. 255)(0 := 5))) 0 = 1
   \<and> ((\<lambda>e. snd (increment_track e)) ^^ 5) ((\<lambda>_. 255)(0 := 5)) 0 = 5"
  using increment_track_cycle [of "(\<lambda>_. 255)(0 := 5)"] by simp

section \<open>Playback visits the pairs up to the first End\<close>

lemma play_loop_pair:
  assumes "i < 50"
  shows "play_loop ee s (s + 2 * int i) =
           visit ee s i @ (if ee (s + 2 * int i + 1) = END then []
                           else play_loop ee s (s + 2 * int (Suc i)))"
proof -
  have "s + 2 * int i \<le> s + 99" using assms by simp
  moreover have "s + 2 * int i + 2 = s + 2 * int (Suc i)" by simp
  ultimately show ?thesis
    by (subst play_loop.simps) (simp add: visit_def play_event_def Let_def mult.commute add_ac)
qed

lemma play_loop_past: "play_loop ee s (s + 100) = []"
  by (subst play_loop.simps) simp

lemma find_upt_ge: "find P [i..<n] = Some k \<Longrightarrow> i \<le> k \<and> k < n"
  by (auto simp: find_Some_iff)

lemma play_loop_from:
  "i \<le> 50 \<Longrightarrow>
   play_loop ee s (s + 2 * int i) =
     concat (map (visit ee s)
       [i ..< (case find (\<lambda>j. ee (s + 2 * int j + 1) = END) [i..<50] of
                 Some k \<Rightarrow> Suc k | None \<Rightarrow> 50)])"
proof (induction "50 - i" arbitrary: i)
  case 0
  then have "i = 50" by simp
  then show ?case by (simp add: play_loop_past)
next
  case (Suc n)
  then have lt: "i < 50" by simp
  have upt: "[i..<50] = i # [Suc i..<50]" using lt by (simp add: upt_conv_Cons)
  show ?case
  proof (cases "ee (s + 2 * int i + 1) = END")
    case True
    then show ?thesis using lt by (simp add: play_loop_pair upt)
  next
    case False
    have ih: "play_loop ee s (s + 2 * int (Suc i)) =
        concat (map (visit ee s)
          [Suc i ..< (case find (\<lambda>j. ee (s + 2 * int j + 1) = END) [Suc i..<50] of
                        Some k \<Rightarrow> Suc k | None \<Rightarrow> 50)])"
      using Suc.hyps(1) [of "Suc i"] Suc.hyps(2) lt by simp
    have bound: "Suc i \<le> (case find (\<lambda>j. ee (s + 2 * int j + 1) = END) [Suc i..<50] of
                        Some k \<Rightarrow> Suc k | None \<Rightarrow> 50)"
      using lt by (auto split: option.splits dest: find_upt_ge)
    show ?thesis
      using False lt bound
      by (simp only: play_loop_pair [OF lt] ih upt find.simps if_False)
         (simp add: upt_conv_Cons)
  qed
qed

lemma play_loop_visits:
  "play_loop ee s s = concat (map (visit ee s) [0 ..< visited ee s])"
  using play_loop_from [of 0 ee s] by (simp add: visited_def first_end_def)


text \<open>
  C1. For a current track with a start location, \<^verbatim>\<open>play_track\<close> makes one pass over the
  region: it visits pair 0, pair 1, ... in order, up to and including the first pair of
  kind End if one of the 50 pairs is an End, and all 50 pairs otherwise, and then stops.
  A visited pair of kind Yes, No or Snake calls its action once; the End pair, like a pair
  of any other kind, calls none.
\<close>

theorem play_track_visits:
  assumes "get_start_mem_location (ee 0) = Some s"
  shows "play_track ee =
           Some ([Eeprom_read 0, Serial_print ''Playing track '', Serial_print_num (uint (ee 0)),
                  Serial_print ''start_mem_location: '', Serial_print_num s]
                 @ concat (map (visit ee s) [0 ..< visited ee s]))
       \<and> (first_end ee s = None \<longrightarrow> visited ee s = 50)
       \<and> (\<forall>k. first_end ee s = Some k \<longrightarrow>
              visited ee s = Suc k \<and> k < 50 \<and> ee (s + 2 * int k + 1) = END
              \<and> (\<forall>j<k. ee (s + 2 * int j + 1) \<noteq> END)
              \<and> filter is_action (visit ee s k) = [])
       \<and> (\<forall>i. filter is_action (visit ee s i) =
              (if ee (s + 2 * int i + 1) = YES then [Act_yes]
               else if ee (s + 2 * int i + 1) = NO then [Act_no]
               else if ee (s + 2 * int i + 1) = SNAKE then [Act_snake]
               else []))"
proof -
  have trace: "play_track ee =
           Some ([Eeprom_read 0, Serial_print ''Playing track '', Serial_print_num (uint (ee 0)),
                  Serial_print ''start_mem_location: '', Serial_print_num s]
                 @ concat (map (visit ee s) [0 ..< visited ee s]))"
    using assms by (simp add: play_track_def play_loop_visits)
  have none: "first_end ee s = None \<longrightarrow> visited ee s = 50"
    by (simp add: visited_def)
  have acts: "filter is_action (visit ee s i) =
              (if ee (s + 2 * int i + 1) = YES then [Act_yes]
               else if ee (s + 2 * int i + 1) = NO then [Act_no]
               else if ee (s + 2 * int i + 1) = SNAKE then [Act_snake]
               else [])" for i
    by (simp add: visit_def Let_def)
  have some: "visited ee s = Suc k \<and> k < 50 \<and> ee (s + 2 * int k + 1) = END
              \<and> (\<forall>j<k. ee (s + 2 * int j + 1) \<noteq> END)
              \<and> filter is_action (visit ee s k) = []" if "first_end ee s = Some k" for k
  proof -
    from that obtain n where n: "n < length [0..<50::nat]"
        "ee (s + 2 * int ([0..<50] ! n) + 1) = END" "k = [0..<50] ! n"
        "\<forall>j<n. ee (s + 2 * int ([0..<50] ! j) + 1) \<noteq> END"
      unfolding first_end_def find_Some_iff by blast
    from n(1) have n50: "n < 50" by simp
    then have kn: "k = n" using n(3) by simp
    have before: "\<forall>j<k. ee (s + 2 * int j + 1) \<noteq> END"
    proof (intro allI impI)
      fix j assume "j < k"
      then have "j < n" "j < 50" using kn n50 by simp_all
      then show "ee (s + 2 * int j + 1) \<noteq> END" using n(4) by (metis add_0 nth_upt)
    qed
    have at: "ee (s + 2 * int k + 1) = END" using n(2) n50 kn by simp
    show ?thesis
      using that n50 kn at before by (simp add: visited_def acts)
  qed
  show ?thesis
    using trace none acts some by blast
qed

theorem play_track_visits_witness:
  "get_start_mem_location
     (((\<lambda>_::int. 255)(0 := 1, 1 := 10, 2 := YES, 3 := 20, 4 := NO, 5 := 0, 6 := END)) 0) = Some 1
   \<and> play_track ((\<lambda>_. 255)(0 := 1, 1 := 10, 2 := YES, 3 := 20, 4 := NO, 5 := 0, 6 := END)) =
       Some [Eeprom_read 0, Serial_print ''Playing track '', Serial_print_num 1,
             Serial_print ''start_mem_location: '', Serial_print_num 1,
             Eeprom_read 1, Eeprom_read 2, Serial_print ''event_delay: '',
             Serial_print_num 10, Delay 1000, Serial_print ''YES'', Act_yes,
             Eeprom_read 3, Eeprom_read 4, Serial_print ''event_delay: '',
             Serial_print_num 20, Delay 2000, Serial_print ''NO'', Act_no,
             Eeprom_read 5, Eeprom_read 6, Serial_print ''event_delay: '',
             Serial_print_num 0, Delay 0, Serial_print ''END'']"
proof -
  have start: "get_start_mem_location
     (((\<lambda>_::int. 255)(0 := 1, 1 := 10, 2 := YES, 3 := 20, 4 := NO, 5 := 0, 6 := END)) 0) = Some 1"
    by (simp add: get_start_mem_location_def)
  show ?thesis
    using start
      play_track_visits [of "(\<lambda>_. 255)(0 := 1, 1 := 10, 2 := YES, 3 := 20, 4 := NO, 5 := 0, 6 := END)" 1,
        THEN conjunct1]
    by (simp add: visited_def first_end_def upt_rec visit_def)
qed

section \<open>Invalid event types\<close>

text \<open>
  C9. A pair whose kind byte is none of Yes, No, Snake, End does not stop playback: the
  loop reads the pair, waits its delay, prints \<^verbatim>\<open>Invalid event type!\<close>, calls no action,
  and goes on with the next pair, on the same EEPROM and the same region.
\<close>

theorem play_loop_invalid_event_type:
  assumes "pos \<le> start + 99" and "ee (pos + 1) \<notin> {YES, NO, SNAKE, END}"
  shows "play_loop ee start pos =
           [Eeprom_read pos, Eeprom_read (pos + 1),
            Serial_print ''event_delay: '', Serial_print_num (uint (ee pos)),
            Delay (uint (ee pos) * 100), Serial_print ''Invalid event type!'']
           @ play_loop ee start (pos + 2)
       \<and> filter is_action (play_loop ee start pos) =
           filter is_action (play_loop ee start (pos + 2))"
proof -
  have "play_loop ee start pos =
           [Eeprom_read pos, Eeprom_read (pos + 1),
            Serial_print ''event_delay: '', Serial_print_num (uint (ee pos)),
            Delay (uint (ee pos) * 100), Serial_print ''Invalid event type!'']
           @ play_loop ee start (pos + 2)"
    using assms by (subst play_loop.simps) (simp add: play_event_def Let_def)
  then show ?thesis by simp
qed

theorem play_loop_invalid_event_type_witness:
  "(1::int) \<le> 1 + 99 \<and> ((\<lambda>_::int. 255)(1 := 7, 2 := 42)) (1 + 1) \<notin> {YES, NO, SNAKE, END}
   \<and> play_loop ((\<lambda>_. 255)(1 := 7, 2 := 42)) 1 1 =
       [Eeprom_read 1, Eeprom_read 2, Serial_print ''event_delay: '', Serial_print_num 7,
        Delay 700, Serial_print ''Invalid event type!'']
       @ play_loop ((\<lambda>_. 255)(1 := 7, 2 := 42)) 1 3"
  using play_loop_invalid_event_type [of 1 1 "(\<lambda>_. 255)(1 := 7, 2 := 42)"] by simp

section \<open>Start locations\<close>

text \<open>
  C10. \<^verbatim>\<open>get_start_mem_location\<close> returns 1, 100, 200, 300, 400, 500 for the tracks 1 to
  6 and has no return value for any other byte; with such a byte in the current-track
  cell, \<^verbatim>\<open>play_track\<close> has no region to scan, \<^verbatim>\<open>record_event\<close> no location to write
  to, and a press of Yes, No, Snake or Record during a recording nothing to record into.
\<close>

theorem get_start_mem_location_cases:
  "get_start_mem_location 1 = Some 1
   \<and> get_start_mem_location 2 = Some 100
   \<and> get_start_mem_location 3 = Some 200
   \<and> get_start_mem_location 4 = Some 300
   \<and> get_start_mem_location 5 = Some 400
   \<and> get_start_mem_location 6 = Some 500
   \<and> (\<forall>track. track \<notin> {1, 2, 3, 4, 5, 6} \<longrightarrow> get_start_mem_location track = None)
   \<and> (\<forall>ee. ee 0 \<notin> {1, 2, 3, 4, 5, 6} \<longrightarrow> play_track ee = None)
   \<and> (\<forall>track event_delay event_type recording_length ee.
         track \<notin> {1, 2, 3, 4, 5, 6} \<longrightarrow>
         record_event track event_delay event_type recording_length ee = None)
   \<and> (\<forall>track event_delay_long input r.
         track \<notin> {1, 2, 3, 4, 5, 6} \<and> input \<in> {YES_CMD, NO_CMD, SNAKE_CMD, RECORD_CMD} \<longrightarrow>
         record_press track event_delay_long input r = Inl No_region)"
proof -
  have none: "get_start_mem_location track = None" if "track \<notin> {1, 2, 3, 4, 5, 6}" for track
    using that by (simp add: get_start_mem_location_def)
  have press: "record_press track event_delay_long input r = Inl No_region"
    if "track \<notin> {1, 2, 3, 4, 5, 6}" "input \<in> {YES_CMD, NO_CMD, SNAKE_CMD, RECORD_CMD}"
    for track event_delay_long input r
    using that(2) none [OF that(1)] by (auto simp: record_press_def record_event_def Let_def)
  show ?thesis
    using none press
    by (simp add: get_start_mem_location_def play_track_def record_event_def)
qed

theorem get_start_mem_location_cases_witness:
  "get_start_mem_location 255 = None \<and> play_track (\<lambda>_. 255) = None
   \<and> record_event 0 10 YES 0 (\<lambda>_. 255) = None"
proof -
  note cases = get_start_mem_location_cases
  have "get_start_mem_location 255 = None"
    using cases [THEN conjunct2, THEN conjunct2, THEN conjunct2, THEN conjunct2,
      THEN conjunct2, THEN conjunct2, THEN conjunct1, THEN spec, of 255] by simp
  moreover have "play_track (\<lambda>_. 255) = None"
    using cases [THEN conjunct2, THEN conjunct2, THEN conjunct2, THEN conjunct2,
      THEN conjunct2, THEN conjunct2, THEN conjunct2, THEN conjunct1, THEN spec,
      of "\<lambda>_. 255"] by simp
  moreover have "record_event 0 10 YES 0 (\<lambda>_. 255) = None"
    using cases [THEN conjunct2, THEN conjunct2, THEN conjunct2, THEN conjunct2,
      THEN conjunct2, THEN conjunct2, THEN conjunct2, THEN conjunct2, THEN conjunct1] by simp
  ultimately show ?thesis by simp
qed

section \<open>The regions of tracks 1 and 2\<close>

text \<open>
  C3. Track 1 starts at address 1, because cell 0 holds the current track, and track 2
  at address 100: the 100 bytes of track 1 are the addresses 1 to 100, those of track 2
  the addresses 100 to 199, and address 100 belongs to both. Recording a 50th event on
  track 1 writes its type into the first delay byte of track 2.
\<close>

theorem track_regions_1_2_overlap:
  "track_region 1 = {1 .. 100} \<and> track_region 2 = {100 .. 199}
   \<and> 100 \<in> track_region 1 \<inter> track_region 2
   \<and> (\<exists>ee'. record_event 1 event_delay event_type 49 ee = Some ee'
             \<and> ee' 100 = event_type
             \<and> get_start_mem_location 2 = Some 100)"
  by (simp add: track_region_def get_start_mem_location_def record_event_def)

lemma track_regions_disjoint_otherwise:
  assumes "s1 \<in> {1, 2, 3, 4, 5}" and "s2 \<in> {1, 2, 3, 4, 5}" and "s1 \<noteq> s2"
    and "{s1, s2} \<noteq> {1, 2}"
  shows "track_region s1 \<inter> track_region s2 = {}"
  using assms by (auto simp: track_region_def get_start_mem_location_def)


section \<open>Polling the buttons\<close>

text \<open>
  C6. A poll reports the first command, in the order Play, Record, SelectTrack, Yes, No,
  Snake, whose button is pressed, and none if no button is pressed. The Record counter is
  zero after a poll that sees the Record line released, is incremented (\<^verbatim>\<open>++\<close> on a
  16-bit \<^verbatim>\<open>int\<close>) by a poll that reports Record, and is unchanged otherwise (Record
  pressed, Play reported); likewise the SelectTrack counter.
\<close>

theorem check_buttons_priority:
  "fst (check_buttons p st) = (resolve p \<noteq> None)
   \<and> userInput (snd (check_buttons p st)) =
       (case resolve p of None \<Rightarrow> 0 | Some c \<Rightarrow> command_code c)
   \<and> recordButtonCounter (snd (check_buttons p st)) =
       (if RECORD_BUTTON p then 0
        else if resolve p = Some Record then int16_succ (recordButtonCounter st)
        else recordButtonCounter st)
   \<and> incrementTrackButtonCounter (snd (check_buttons p st)) =
       (if TRACK_SELECT_BUTTON p then 0
        else if resolve p = Some SelectTrack then int16_succ (incrementTrackButtonCounter st)
        else incrementTrackButtonCounter st)
   \<and> (recordButtonCounter st < 32767 \<and> resolve p = Some Record
        \<longrightarrow> recordButtonCounter (snd (check_buttons p st)) = recordButtonCounter st + 1)
   \<and> (incrementTrackButtonCounter st < 32767 \<and> resolve p = Some SelectTrack
        \<longrightarrow> incrementTrackButtonCounter (snd (check_buttons p st)) =
              incrementTrackButtonCounter st + 1)"
  by (simp add: check_buttons_def resolve_def priority_def int16_succ_def Let_def)


theorem check_buttons_priority_witness:
  "resolve record_held = Some Record
   \<and> recordButtonCounter (snd (check_buttons record_held
        \<lparr>userInput = 0, recordButtonCounter = 5, incrementTrackButtonCounter = 7\<rparr>)) = 6
   \<and> incrementTrackButtonCounter (snd (check_buttons record_held
        \<lparr>userInput = 0, recordButtonCounter = 5, incrementTrackButtonCounter = 7\<rparr>)) = 0"
  using check_buttons_priority [of record_held
      "\<lparr>userInput = 0, recordButtonCounter = 5, incrementTrackButtonCounter = 7\<rparr>"]
  by (simp add: resolve_def priority_def record_held_def)

section \<open>The long press on Record\<close>

lemma loop_record_held:
  "loop record_held st =
     (if 200 < int16_succ (recordButtonCounter st) then Call_record_track else No_call,
      st\<lparr>userInput := RECORD_CMD,
         recordButtonCounter := int16_succ (recordButtonCounter st),
         incrementTrackButtonCounter := 0\<rparr>)"
  by (simp add: loop_def check_buttons_def record_held_def Let_def)

lemma loop_all_released:
  "loop all_released st =
     (No_call, st\<lparr>userInput := 0, recordButtonCounter := 0, incrementTrackButtonCounter := 0\<rparr>)"
  by (simp add: loop_def check_buttons_def all_released_def Let_def)

lemma hold_below:
  "0 \<le> recordButtonCounter st \<Longrightarrow> recordButtonCounter st + int n \<le> 200 \<Longrightarrow>
   \<exists>st'. recordButtonCounter st' = recordButtonCounter st + int n
       \<and> loop_until_record (replicate n record_held @ rest) st =
           replicate n No_call @ loop_until_record rest st'"
proof (induction n arbitrary: st)
  case 0
  then show ?case by auto
next
  case (Suc n)
  let ?st1 = "st\<lparr>userInput := RECORD_CMD,
                  recordButtonCounter := int16_succ (recordButtonCounter st),
                  incrementTrackButtonCounter := 0\<rparr>"
  have succ: "int16_succ (recordButtonCounter st) = recordButtonCounter st + 1"
    using Suc.prems by (simp add: int16_succ_def)
  have "0 \<le> recordButtonCounter ?st1" "recordButtonCounter ?st1 + int n \<le> 200"
    using Suc.prems succ by simp_all
  from Suc.IH [OF this] obtain st' where
    st': "recordButtonCounter st' = recordButtonCounter ?st1 + int n"
      "loop_until_record (replicate n record_held @ rest) ?st1 =
         replicate n No_call @ loop_until_record rest st'"
    by blast
  have "\<not> 200 < int16_succ (recordButtonCounter st)"
    using Suc.prems succ by simp
  then have step: "loop_until_record (replicate (Suc n) record_held @ rest) st =
      No_call # loop_until_record (replicate n record_held @ rest) ?st1"
    by (simp add: loop_record_held)
  show ?case
  proof (intro exI conjI)
    show "recordButtonCounter st' = recordButtonCounter st + int (Suc n)"
      using st'(1) succ by simp
    show "loop_until_record (replicate (Suc n) record_held @ rest) st =
        replicate (Suc n) No_call @ loop_until_record rest st'"
      by (subst step, subst st'(2)) simp
  qed
qed

lemma hold_above:
  assumes "recordButtonCounter st = 0" and "200 < n"
  shows "loop_until_record (replicate n record_held @ rest) st =
           replicate 200 No_call @ [Call_record_track]"
proof -
  have split: "replicate n record_held @ rest =
      replicate 200 record_held @ (record_held # replicate (n - 201) record_held @ rest)"
    using assms(2) by (simp add: replicate_add [symmetric] flip: replicate_Suc)
  obtain st' where st': "recordButtonCounter st' = 200"
      "loop_until_record (replicate n record_held @ rest) st =
         replicate 200 No_call
         @ loop_until_record (record_held # replicate (n - 201) record_held @ rest) st'"
    using hold_below [of st 200 "record_held # replicate (n - 201) record_held @ rest"]
      assms(1) unfolding split by auto
  have "loop_until_record (record_held # replicate (n - 201) record_held @ rest) st' =
      [Call_record_track]"
    using st'(1) by (simp add: loop_record_held int16_succ_def)
  with st'(2) show ?thesis by simp
qed

lemma hold_release:
  assumes "recordButtonCounter st = 0" and "n \<le> 200"
  shows "loop_until_record (replicate n record_held @ [all_released]) st =
           replicate (Suc n) No_call"
proof -
  obtain st' where
      "loop_until_record (replicate n record_held @ [all_released]) st =
         replicate n No_call @ loop_until_record [all_released] st'"
    using hold_below [of st n "[all_released]"] assms by auto
  then show ?thesis
    by (simp add: loop_all_released replicate_append_same)
qed


text \<open>
  C8, as the code has it. \<^verbatim>\<open>loop()\<close> calls \<^verbatim>\<open>record_track\<close> when the Record counter
  exceeds 200, one pass every 10 ms: with the counter at zero, Record held for up to 200
  passes (2.0 s) and then released calls nothing, and Record held for more than 200
  passes calls \<^verbatim>\<open>record_track\<close> in pass 201, whatever follows.
\<close>

theorem record_long_press_threshold:
  assumes "recordButtonCounter st = 0"
  shows "(n \<le> 200 \<longrightarrow>
            loop_until_record (replicate n record_held @ [all_released]) st =
              replicate (Suc n) No_call)
       \<and> (200 < n \<longrightarrow>
            loop_until_record (replicate n record_held @ rest) st =
              replicate 200 No_call @ [Call_record_track])"
  using assms hold_release [of st n] hold_above [of st n rest] by blast

theorem record_long_press_threshold_witness:
  "recordButtonCounter power_on = 0
   \<and> loop_until_record (replicate 200 record_held @ [all_released]) power_on =
       replicate 201 No_call
   \<and> loop_until_record (replicate 310 record_held @ [all_released]) power_on =
       replicate 200 No_call @ [Call_record_track]"
proof -
  have zero: "recordButtonCounter power_on = 0"
    by (simp add: power_on_def)
  show ?thesis
    using zero
      record_long_press_threshold [OF zero, of 200]
      record_long_press_threshold [OF zero, of 310 "[all_released]"]
    by simp
qed

text \<open>
  Record held for 2.9 s, 290 passes of \<^verbatim>\<open>loop()\<close> from power-on, and then released:
  pass 201 calls \<^verbatim>\<open>record_track\<close>.
\<close>

theorem record_held_290_passes:
  "loop_until_record (replicate 290 record_held @ [all_released]) power_on =
     replicate 200 No_call @ [Call_record_track]
   \<and> Call_record_track \<in> set (loop_until_record (replicate 290 record_held @ [all_released]) power_on)"
proof -
  have "recordButtonCounter power_on = 0"
    by (simp add: power_on_def)
  then have "loop_until_record (replicate 290 record_held @ [all_released]) power_on =
     replicate 200 No_call @ [Call_record_track]"
    by (rule hold_above) simp
  then show ?thesis by simp
qed

section \<open>The first boot\<close>












section \<open>What a recording session stores\<close>

lemma record_event_start:
  "get_start_mem_location track = Some s \<Longrightarrow>
   record_event track d k n ee = Some (ee(s + 2 * uint n := d, s + 2 * uint n + 1 := k))"
  by (simp add: record_event_def Let_def mult.commute)

lemma record_press_cases:
  assumes "record_press track e input r = Inr r1" and "get_start_mem_location track = Some s"
  shows "(rec_store r1 = rec_store r \<and> recording_length r1 = recording_length r
          \<and> recording_status r1 = recording_status r \<and> rec_log r1 = rec_log r)
       \<or> (\<exists>k. k \<in> {YES, NO, SNAKE}
            \<and> rec_store r1 = (rec_store r)(s + 2 * uint (recording_length r) := event_delay_of e,
                                          s + 2 * uint (recording_length r) + 1 := k)
            \<and> recording_length r1 = recording_length r + 1
            \<and> recording_status r1 = recording_status r \<and> rec_log r1 = rec_log r @ [(e, k)])
       \<or> (rec_store r1 = (rec_store r)(s + 2 * uint (recording_length r) := event_delay_of e,
                                          s + 2 * uint (recording_length r) + 1 := END)
            \<and> recording_length r1 = recording_length r
            \<and> \<not> recording_status r1 \<and> rec_log r1 = rec_log r @ [(e, END)])"
proof -
  consider "input = YES_CMD" | "input = NO_CMD" | "input = SNAKE_CMD" | "input = RECORD_CMD"
    | "input \<notin> {YES_CMD, NO_CMD, SNAKE_CMD, RECORD_CMD}"
    by blast
  then show ?thesis
  proof cases
    case 1
    then have "r1 = r\<lparr>rec_store := (rec_store r)(s + 2 * uint (recording_length r) := event_delay_of e,
                                          s + 2 * uint (recording_length r) + 1 := YES),
                      recording_length := recording_length r + 1,
                      rec_log := rec_log r @ [(e, YES)]\<rparr>"
      using assms by (simp add: record_press_def record_event_start Let_def)
    then show ?thesis by simp
  next
    case 2
    then have "r1 = r\<lparr>rec_store := (rec_store r)(s + 2 * uint (recording_length r) := event_delay_of e,
                                          s + 2 * uint (recording_length r) + 1 := NO),
                      recording_length := recording_length r + 1,
                      rec_log := rec_log r @ [(e, NO)]\<rparr>"
      using assms by (simp add: record_press_def record_event_start Let_def)
    then show ?thesis by simp
  next
    case 3
    then have "r1 = r\<lparr>rec_store := (rec_store r)(s + 2 * uint (recording_length r) := event_delay_of e,
                                          s + 2 * uint (recording_length r) + 1 := SNAKE),
                      recording_length := recording_length r + 1,
                      rec_log := rec_log r @ [(e, SNAKE)]\<rparr>"
      using assms by (simp add: record_press_def record_event_start Let_def)
    then show ?thesis by simp
  next
    case 4
    then have "r1 = r\<lparr>rec_store := (rec_store r)(s + 2 * uint (recording_length r) := event_delay_of e,
                                          s + 2 * uint (recording_length r) + 1 := END),
                      recording_status := False,
                      rec_log := rec_log r @ [(e, END)]\<rparr>"
      using assms by (simp add: record_press_def record_event_start Let_def)
    then show ?thesis by simp
  next
    case 5
    then have "r1 = r"
      using assms by (simp add: record_press_def Let_def)
    then show ?thesis by simp
  qed
qed

lemma record_body_fields:
  assumes "record_body track r = Inr r'"
  shows "(rec_store r' = rec_store r \<and> recording_length r' = recording_length r
          \<and> recording_status r' = recording_status r \<and> rec_log r' = rec_log r)
       \<or> (\<exists>e input r1. record_press track e input r = Inr r1
            \<and> rec_store r' = rec_store r1 \<and> recording_length r' = recording_length r1
            \<and> recording_status r' = recording_status r1 \<and> rec_log r' = rec_log r1)"
proof -
  obtain now clock1 where c: "rec_clock r = now # clock1"
    using assms by (cases "rec_clock r") (simp_all add: record_body_def)
  obtain p polls1 where p: "rec_polls r = p # polls1"
    using assms c by (cases "rec_polls r") (simp_all add: record_body_def Let_def)
  obtain b st1 where cb: "check_buttons p (rec_buttons r) = (b, st1)"
    by (cases "check_buttons p (rec_buttons r)")
  show ?thesis
  proof (cases b)
    case False
    then have "r' = r\<lparr>rec_buttons := st1, rec_polls := polls1, rec_clock := clock1\<rparr>"
      using assms c p cb by (simp add: record_body_def Let_def)
    then show ?thesis by simp
  next
    case True
    then obtain r1 where
      rp: "record_press track (sint (now - last_press_time r)) (userInput st1) r = Inr r1"
      using assms c p cb
      by (cases "record_press track (sint (now - last_press_time r)) (userInput st1) r")
         (simp_all add: record_body_def Let_def)
    have "rec_store r' = rec_store r1 \<and> recording_length r' = recording_length r1
            \<and> recording_status r' = recording_status r1 \<and> rec_log r' = rec_log r1"
      using assms c p cb True rp
      by (auto simp: record_body_def Let_def split: option.splits list.splits)
    with rp show ?thesis by blast
  qed
qed

lemma record_body_cases:
  assumes "record_body track r = Inr r'" and "get_start_mem_location track = Some s"
  shows "(rec_store r' = rec_store r \<and> recording_length r' = recording_length r
          \<and> recording_status r' = recording_status r \<and> rec_log r' = rec_log r)
       \<or> (\<exists>e k. k \<in> {YES, NO, SNAKE}
            \<and> rec_store r' = (rec_store r)(s + 2 * uint (recording_length r) := event_delay_of e,
                                          s + 2 * uint (recording_length r) + 1 := k)
            \<and> recording_length r' = recording_length r + 1
            \<and> recording_status r' = recording_status r \<and> rec_log r' = rec_log r @ [(e, k)])
       \<or> (\<exists>e. rec_store r' = (rec_store r)(s + 2 * uint (recording_length r) := event_delay_of e,
                                          s + 2 * uint (recording_length r) + 1 := END)
            \<and> recording_length r' = recording_length r
            \<and> \<not> recording_status r' \<and> rec_log r' = rec_log r @ [(e, END)])"
proof -
  from record_body_fields [OF assms(1)] consider
      (idle) "rec_store r' = rec_store r" "recording_length r' = recording_length r"
        "recording_status r' = recording_status r" "rec_log r' = rec_log r"
    | (press) e input r1 where "record_press track e input r = Inr r1"
        "rec_store r' = rec_store r1" "recording_length r' = recording_length r1"
        "recording_status r' = recording_status r1" "rec_log r' = rec_log r1"
    by blast
  then show ?thesis
  proof cases
    case idle
    then show ?thesis by simp
  next
    case press
    from record_press_cases [OF press(1) assms(2)] show ?thesis
      unfolding press(2-5) by blast
  qed
qed


lemma byte_succ_unat: "unat (w :: byte) < 255 \<Longrightarrow> unat (w + 1) = Suc (unat w)"
  by (simp add: unat_word_ariths)

lemma record_loop_invariant:
  "record_loop track r = Inr r' \<Longrightarrow> recording_status r \<Longrightarrow>
   get_start_mem_location track = Some s \<Longrightarrow>
   \<exists>new e. rec_log r' = rec_log r @ new @ [(e, END)]
     \<and> (\<forall>x\<in>set new. snd x \<in> {YES, NO, SNAKE})
     \<and> (unat (recording_length r) + length new < 256 \<longrightarrow>
          rec_store r' =
            store_events s (unat (recording_length r)) (new @ [(e, END)]) (rec_store r))"
proof (induction track r arbitrary: r' rule: record_loop.induct)
  case (1 track r)
  from "1.prems"(1,2) obtain r1 where
    body: "record_body track r = Inr r1" and rest: "record_loop track r1 = Inr r'"
    by (subst (asm) record_loop.simps) (auto split: sum.splits)
  note ih = "1.IH" [OF "1.prems"(2) body rest _ "1.prems"(3)]
  from record_body_cases [OF body "1.prems"(3)] consider
      (idle) "rec_store r1 = rec_store r" "recording_length r1 = recording_length r"
        "recording_status r1 = recording_status r" "rec_log r1 = rec_log r"
    | (press) e k where "k \<in> {YES, NO, SNAKE}"
        "rec_store r1 = (rec_store r)(s + 2 * uint (recording_length r) := event_delay_of e,
                                       s + 2 * uint (recording_length r) + 1 := k)"
        "recording_length r1 = recording_length r + 1"
        "recording_status r1 = recording_status r" "rec_log r1 = rec_log r @ [(e, k)]"
    | (stop) e where
        "rec_store r1 = (rec_store r)(s + 2 * uint (recording_length r) := event_delay_of e,
                                       s + 2 * uint (recording_length r) + 1 := END)"
        "recording_length r1 = recording_length r"
        "\<not> recording_status r1" "rec_log r1 = rec_log r @ [(e, END)]"
    by blast
  then show ?case
  proof cases
    case idle
    with ih "1.prems"(2) show ?thesis by simp
  next
    case press
    from ih press(4) "1.prems"(2) obtain new e' where
      new: "rec_log r' = rec_log r1 @ new @ [(e', END)]"
        "\<forall>x\<in>set new. snd x \<in> {YES, NO, SNAKE}"
        "unat (recording_length r1) + length new < 256 \<longrightarrow>
           rec_store r' =
             store_events s (unat (recording_length r1)) (new @ [(e', END)]) (rec_store r1)"
      by auto
    have "rec_log r' = rec_log r @ ((e, k) # new) @ [(e', END)]"
      using new(1) press(5) by simp
    moreover have "\<forall>x\<in>set ((e, k) # new). snd x \<in> {YES, NO, SNAKE}"
      using new(2) press(1) by simp
    moreover have "rec_store r' =
        store_events s (unat (recording_length r)) (((e, k) # new) @ [(e', END)]) (rec_store r)"
      if "unat (recording_length r) + length ((e, k) # new) < 256"
    proof -
      from that have "unat (recording_length r) < 255" by simp
      then have "unat (recording_length r1) = Suc (unat (recording_length r))"
        using press(3) by (simp add: byte_succ_unat)
      with that new(3) press(2) show ?thesis
        by simp
    qed
    ultimately show ?thesis by blast
  next
    case stop
    from rest stop(3) have "r' = r1"
      by (subst (asm) record_loop.simps) simp
    with stop show ?thesis
      by (intro exI [of _ "[]"] exI [of _ e]) simp
  qed
qed

lemma store_events_below:
  "a < s + 2 * int n \<Longrightarrow> store_events s n xs ee a = ee a"
  by (induction xs arbitrary: n ee) auto

lemma store_events_read:
  "j < length xs \<Longrightarrow>
   store_events s n xs ee (s + 2 * int (n + j)) = event_delay_of (fst (xs ! j))
   \<and> store_events s n xs ee (s + 2 * int (n + j) + 1) = snd (xs ! j)"
proof (induction xs arbitrary: n ee j)
  case Nil
  then show ?case by simp
next
  case (Cons x xs)
  show ?case
  proof (cases j)
    case 0
    then show ?thesis by (simp add: store_events_below)
  next
    case (Suc j')
    with Cons.prems have "j' < length xs" by simp
    from Cons.IH [OF this, of "Suc n"] Suc show ?thesis by simp
  qed
qed

section \<open>Recording, then playback\<close>

lemma event_delay_of_nonneg: "0 \<le> e \<Longrightarrow> uint (event_delay_of e) = tenths e"
proof -
  assume e: "0 \<le> e"
  then have "e sdiv 100 = e div 100"
    by (simp add: signed_divide_int_def sgn_if)
  moreover have "0 \<le> e div 100" using e by simp
  ultimately show ?thesis
    by (simp add: event_delay_of_def tenths_def Let_def uint_word_of_int take_bit_eq_mod min_def)
qed

lemma waits_append: "waits (xs @ ys) = waits xs @ waits ys"
  by (induction xs rule: waits.induct) simp_all

lemma waits_visit: "waits (visit ee s i) = [100 * uint (ee (s + 2 * int i))]"
  by (simp add: visit_def Let_def)

lemma waits_visits:
  "waits (concat (map (visit ee s) [0..<m])) = map (\<lambda>i. 100 * uint (ee (s + 2 * int i))) [0..<m]"
  by (induction m) (simp_all add: waits_append waits_visit)

lemma actions_visit:
  "filter is_action (visit ee s i) =
     (if ee (s + 2 * int i + 1) \<in> {YES, NO, SNAKE} then [action_of (ee (s + 2 * int i + 1))] else [])"
  by (simp add: visit_def Let_def action_of_def)

lemma visited_end:
  assumes "k < 50" and "ee (s + 2 * int k + 1) = END" and "\<forall>j<k. ee (s + 2 * int j + 1) \<noteq> END"
  shows "visited ee s = Suc k"
proof -
  have "find (\<lambda>i. ee (s + 2 * int i + 1) = END) [0..<50] = Some k"
    unfolding find_Some_iff
    using assms by (intro exI [of _ k]) simp
  then show ?thesis by (simp add: visited_def first_end_def)
qed

lemma visited_no_end:
  assumes "\<forall>j<50. ee (s + 2 * int j + 1) \<noteq> END"
  shows "visited ee s = 50"
proof -
  have "find (\<lambda>i. ee (s + 2 * int i + 1) = END) [0..<50] = None"
    unfolding find_None_iff using assms by simp
  then show ?thesis by (simp add: visited_def first_end_def)
qed

lemma stored_pairs:
  assumes "ee' = store_events s 0 (new @ [(e, END)]) ee"
  shows "i < length new \<Longrightarrow>
           ee' (s + 2 * int i) = event_delay_of (fst (new ! i))
           \<and> ee' (s + 2 * int i + 1) = snd (new ! i)"
    and "ee' (s + 2 * int (length new)) = event_delay_of e"
    and "ee' (s + 2 * int (length new) + 1) = END"
proof -
  show "ee' (s + 2 * int i) = event_delay_of (fst (new ! i))
           \<and> ee' (s + 2 * int i + 1) = snd (new ! i)" if "i < length new"
    using that store_events_read [of i "new @ [(e, END)]" s 0 ee] assms
    by (simp add: nth_append)
  show "ee' (s + 2 * int (length new)) = event_delay_of e"
    using store_events_read [of "length new" "new @ [(e, END)]" s 0 ee] assms by simp
  show "ee' (s + 2 * int (length new) + 1) = END"
    using store_events_read [of "length new" "new @ [(e, END)]" s 0 ee] assms by simp
qed

lemma stored_visited:
  assumes "ee' = store_events s 0 (new @ [(e, END)]) ee"
    and "\<forall>x\<in>set new. snd x \<in> {YES, NO, SNAKE}"
  shows "visited ee' s = min 50 (Suc (length new))"
proof -
  have kinds: "ee' (s + 2 * int j + 1) \<noteq> END" if "j < length new" for j
  proof -
    have "snd (new ! j) \<in> {YES, NO, SNAKE}"
      using assms(2) that by simp
    then show ?thesis
      using stored_pairs(1) [OF assms(1) that] by auto
  qed
  show ?thesis
  proof (cases "length new < 50")
    case True
    then have "visited ee' s = Suc (length new)"
      using kinds stored_pairs(3) [OF assms(1)] by (intro visited_end) simp_all
    with True show ?thesis by simp
  next
    case False
    then have "visited ee' s = 50"
      using kinds by (intro visited_no_end) simp
    with False show ?thesis by simp
  qed
qed

lemma stored_actions:
  assumes "ee' = store_events s 0 (new @ [(e, END)]) ee"
    and "\<forall>x\<in>set new. snd x \<in> {YES, NO, SNAKE}"
    and "m \<le> Suc (length new)"
  shows "filter is_action (concat (map (visit ee' s) [0..<m])) =
           map (action_of \<circ> snd) (take m new)"
  using assms(3)
proof (induction m)
  case 0
  then show ?case by simp
next
  case (Suc m)
  then have m: "m \<le> length new" by simp
  have ih: "filter is_action (concat (map (visit ee' s) [0..<m])) =
           map (action_of \<circ> snd) (take m new)"
    using Suc by simp
  show ?case
  proof (cases "m < length new")
    case True
    have "snd (new ! m) \<in> {YES, NO, SNAKE}"
      using assms(2) True by simp
    then have "filter is_action (visit ee' s m) = [action_of (snd (new ! m))]"
      using stored_pairs(1) [OF assms(1) True] by (simp add: actions_visit)
    with ih True show ?thesis
      by (simp add: take_Suc_conv_app_nth)
  next
    case False
    with m have eq: "m = length new" by simp
    have "filter is_action (visit ee' s m) = []"
      using stored_pairs(3) [OF assms(1)] eq by (simp add: actions_visit)
    with ih eq show ?thesis by simp
  qed
qed

lemma stored_waits:
  assumes "ee' = store_events s 0 (new @ [(e, END)]) ee"
    and "m \<le> Suc (length new)"
  shows "waits (concat (map (visit ee' s) [0..<m])) =
           map (\<lambda>x. 100 * uint (event_delay_of (fst x))) (take m (new @ [(e, END)]))"
  using assms(2)
proof (induction m)
  case 0
  then show ?case by simp
next
  case (Suc m)
  then have m: "m \<le> length new" by simp
  have ih: "waits (concat (map (visit ee' s) [0..<m])) =
           map (\<lambda>x. 100 * uint (event_delay_of (fst x))) (take m (new @ [(e, END)]))"
    using Suc by simp
  have at: "ee' (s + 2 * int m) = event_delay_of (fst ((new @ [(e, END)]) ! m))"
  proof (cases "m < length new")
    case True
    then show ?thesis using stored_pairs(1) [OF assms(1) True] by (simp add: nth_append)
  next
    case False
    with m have "m = length new" by simp
    then show ?thesis using stored_pairs(2) [OF assms(1)] by simp
  qed
  have len: "m < length (new @ [(e, END)])" using m by simp
  show ?case
    using ih at
    by (simp add: waits_append waits_visit take_Suc_conv_app_nth [OF len] del: take_append)
qed

lemma record_track_stores:
  assumes "record_track ee st polls clock = Inr r"
    and "get_start_mem_location (ee 0) = Some s"
  shows "\<exists>new e. rec_log r = new @ [(e, END)]
     \<and> (\<forall>x\<in>set new. snd x \<in> {YES, NO, SNAKE})
     \<and> (length new < 256 \<longrightarrow> rec_store r = store_events s 0 (new @ [(e, END)]) ee)"
proof -
  from assms(1) obtain st' polls' now clock' where
    loop: "record_loop (ee 0)
             \<lparr>rec_store = ee, rec_buttons = st', rec_polls = polls', rec_clock = clock',
              last_press_time = now, recording_status = True, recording_length = 0,
              rec_log = []\<rparr> = Inr r"
    by (auto simp: record_track_def Let_def split: option.splits list.splits)
  from record_loop_invariant [OF loop _ assms(2)] show ?thesis
    by simp
qed


lemma play_recorded_log:
  assumes "ee 0 \<in> {1, 2, 3, 4, 5}"
    and "record_track ee st polls clock = Inr r"
    and "length (rec_log r) \<le> 51"
    and "\<forall>x\<in>set (rec_log r). 0 \<le> fst x"
  shows "\<exists>presses e trace.
           rec_log r = presses @ [(e, END)]
         \<and> (\<forall>x\<in>set presses. snd x \<in> {YES, NO, SNAKE})
         \<and> play_track (rec_store r) = Some trace
         \<and> filter is_action trace = map (action_of \<circ> snd) presses
         \<and> waits trace = map (\<lambda>x. 100 * tenths (fst x)) (take 50 (rec_log r))"
proof -
  from assms(1) obtain s where start: "get_start_mem_location (ee 0) = Some s" and s: "1 \<le> s"
    by (auto simp: get_start_mem_location_def)
  from record_track_stores [OF assms(2) start] obtain new e where
    log: "rec_log r = new @ [(e, END)]"
    and kinds: "\<forall>x\<in>set new. snd x \<in> {YES, NO, SNAKE}"
    and stored: "length new < 256 \<longrightarrow> rec_store r = store_events s 0 (new @ [(e, END)]) ee"
    by blast
  from assms(3) log have len: "length new \<le> 50" by simp
  with stored have store: "rec_store r = store_events s 0 (new @ [(e, END)]) ee" by simp
  define m where "m = min 50 (Suc (length new))"
  have m: "m \<le> Suc (length new)" "length new \<le> m" "m = min 50 (length (rec_log r))"
    using len log by (simp_all add: m_def)
  have track: "rec_store r 0 = ee 0"
    using s by (simp add: store store_events_below)
  define trace where
    "trace = [Eeprom_read 0, Serial_print ''Playing track '', Serial_print_num (uint (ee 0)),
              Serial_print ''start_mem_location: '', Serial_print_num s]
             @ concat (map (visit (rec_store r) s) [0..<m])"
  have play: "play_track (rec_store r) = Some trace"
    using start track stored_visited [OF store kinds]
    by (simp add: play_track_def play_loop_visits trace_def m_def)
  have actions: "filter is_action trace = map (action_of \<circ> snd) new"
    using stored_actions [OF store kinds m(1)] m(2) by (simp add: trace_def)
  have "waits trace = map (\<lambda>x. 100 * uint (event_delay_of (fst x))) (take m (rec_log r))"
    using stored_waits [OF store m(1)] by (simp add: trace_def log)
  also have "take m (rec_log r) = take 50 (rec_log r)"
    by (simp add: m(3) min_def)
  also have "map (\<lambda>x. 100 * uint (event_delay_of (fst x))) (take 50 (rec_log r)) =
      map (\<lambda>x. 100 * tenths (fst x)) (take 50 (rec_log r))"
  proof (rule map_cong [OF refl])
    fix x assume "x \<in> set (take 50 (rec_log r))"
    then have "x \<in> set (rec_log r)" by (rule in_set_takeD)
    with assms(4) have "0 \<le> fst x" by simp
    then show "100 * uint (event_delay_of (fst x)) = 100 * tenths (fst x)"
      by (simp add: event_delay_of_nonneg)
  qed
  finally have delays: "waits trace = map (\<lambda>x. 100 * tenths (fst x)) (take 50 (rec_log r))" .
  show ?thesis
    using log kinds play actions delays by blast
qed


lemma as_long_uint: "as_long (uint w) = sint (w :: 32 word)"
  by (simp add: as_long_def)

lemma as_long_small: "0 \<le> u \<Longrightarrow> u < 2 ^ 31 \<Longrightarrow> as_long u = u"
  by (simp add: as_long_def sint_uint uint_word_of_int take_bit_int_eq_self
        signed_take_bit_int_eq_self)


lemma check_buttons_resolve:
  "fst (check_buttons p st) = (resolve p \<noteq> None)
   \<and> userInput (snd (check_buttons p st)) =
       (case resolve p of None \<Rightarrow> 0 | Some c \<Rightarrow> command_code c)"
  by (simp add: check_buttons_def resolve_def priority_def Let_def)

lemma wait_for_release_dropWhile:
  "dropWhile (\<lambda>q. resolve q \<noteq> None) polls = q # polls' \<Longrightarrow>
   \<exists>st'. wait_for_release polls st = Some (st', polls')"
proof (induction polls arbitrary: st)
  case Nil
  then show ?case by simp
next
  case (Cons p polls)
  obtain b st1 where cb: "check_buttons p st = (b, st1)"
    by (cases "check_buttons p st")
  with check_buttons_resolve [of p st] have b: "b = (resolve p \<noteq> None)" by simp
  show ?case
  proof (cases "resolve p")
    case None
    with Cons.prems cb b show ?thesis by simp
  next
    case (Some c)
    with Cons.prems have "dropWhile (\<lambda>q. resolve q \<noteq> None) polls = q # polls'" by simp
    from Cons.IH [OF this, of st1] cb b Some show ?thesis by simp
  qed
qed

lemma pressed_events_step:
  assumes "pressed_events since (p # polls) (now # clock) = Some evs" and "resolve p = Some c"
  shows "\<exists>q polls' now2 clock'.
      dropWhile (\<lambda>q. resolve q \<noteq> None) polls = q # polls' \<and> clock = now2 # clock'
    \<and> (c = Record \<longrightarrow> evs = [(uint (now - since), Record)])
    \<and> (c \<in> {Play, SelectTrack} \<longrightarrow> pressed_events now2 polls' clock' = Some evs)
    \<and> (c \<in> {Yes, No, Snake} \<longrightarrow>
         (\<exists>evs'. pressed_events now2 polls' clock' = Some evs'
            \<and> evs = (uint (now - since), c) # evs'))"
proof -
  from assms obtain q polls' now2 clock' where
    dw: "dropWhile (\<lambda>q. resolve q \<noteq> None) polls = q # polls'" and ck: "clock = now2 # clock'"
    by (auto split: list.splits)
  have "evs = [(uint (now - since), Record)]" if "c = Record"
    using assms dw ck that by simp
  moreover have "pressed_events now2 polls' clock' = Some evs" if "c \<in> {Play, SelectTrack}"
    using assms dw ck that by auto
  moreover have "\<exists>evs'. pressed_events now2 polls' clock' = Some evs'
            \<and> evs = (uint (now - since), c) # evs'" if "c \<in> {Yes, No, Snake}"
    using assms dw ck that by auto
  ultimately show ?thesis
    using dw ck by blast
qed

lemma pressed_events_shape:
  "pressed_events since polls clock = Some evs \<Longrightarrow>
   \<exists>presses e. evs = presses @ [(e, Record)]
     \<and> (\<forall>x\<in>set presses. snd x \<in> {Yes, No, Snake})
     \<and> (\<forall>x\<in>set evs. 0 \<le> fst x)"
proof (induction since polls clock arbitrary: evs rule: pressed_events.induct)
  case (1 since polls)
  then show ?case by simp
next
  case (2 since now clock)
  then show ?case by simp
next
  case (3 since p polls now clock)
  show ?case
  proof (cases "resolve p")
    case None
    with "3.prems" have "pressed_events since polls clock = Some evs" by simp
    from "3.IH"(1) [OF None this] show ?thesis .
  next
    case (Some c)
    from pressed_events_step [OF "3.prems" Some] obtain q polls' now2 clock' where
      dw: "dropWhile (\<lambda>q. resolve q \<noteq> None) polls = q # polls'" and ck: "clock = now2 # clock'"
      and stop: "c = Record \<longrightarrow> evs = [(uint (now - since), Record)]"
      and skip: "c \<in> {Play, SelectTrack} \<longrightarrow> pressed_events now2 polls' clock' = Some evs"
      and press: "c \<in> {Yes, No, Snake} \<longrightarrow>
         (\<exists>evs'. pressed_events now2 polls' clock' = Some evs' \<and> evs = (uint (now - since), c) # evs')"
      by blast
    have ih: "\<exists>presses e. evs' = presses @ [(e, Record)]
        \<and> (\<forall>x\<in>set presses. snd x \<in> {Yes, No, Snake}) \<and> (\<forall>x\<in>set evs'. 0 \<le> fst x)"
      if "c \<noteq> Record" "pressed_events now2 polls' clock' = Some evs'" for evs'
      using that "3.IH"(2-6) [OF Some dw ck] by (cases c) auto
    show ?thesis
    proof (cases c)
      case Record
      with stop show ?thesis by simp
    next
      case Play
      with skip ih show ?thesis by simp
    next
      case SelectTrack
      with skip ih show ?thesis by simp
    next
      case Yes
      with press obtain evs' where evs': "pressed_events now2 polls' clock' = Some evs'"
        "evs = (uint (now - since), c) # evs'" by auto
      from ih [OF _ evs'(1)] Yes obtain presses e where
        "evs' = presses @ [(e, Record)]" "\<forall>x\<in>set presses. snd x \<in> {Yes, No, Snake}"
        "\<forall>x\<in>set evs'. 0 \<le> fst x" by auto
      with evs'(2) Yes show ?thesis
        by (intro exI [of _ "(uint (now - since), c) # presses"] exI [of _ e]) simp
    next
      case No
      with press obtain evs' where evs': "pressed_events now2 polls' clock' = Some evs'"
        "evs = (uint (now - since), c) # evs'" by auto
      from ih [OF _ evs'(1)] No obtain presses e where
        "evs' = presses @ [(e, Record)]" "\<forall>x\<in>set presses. snd x \<in> {Yes, No, Snake}"
        "\<forall>x\<in>set evs'. 0 \<le> fst x" by auto
      with evs'(2) No show ?thesis
        by (intro exI [of _ "(uint (now - since), c) # presses"] exI [of _ e]) simp
    next
      case Snake
      with press obtain evs' where evs': "pressed_events now2 polls' clock' = Some evs'"
        "evs = (uint (now - since), c) # evs'" by auto
      from ih [OF _ evs'(1)] Snake obtain presses e where
        "evs' = presses @ [(e, Record)]" "\<forall>x\<in>set presses. snd x \<in> {Yes, No, Snake}"
        "\<forall>x\<in>set evs'. 0 \<le> fst x" by auto
      with evs'(2) Snake show ?thesis
        by (intro exI [of _ "(uint (now - since), c) # presses"] exI [of _ e]) simp
    qed
  qed
qed

lemma record_body_idle:
  assumes "rec_polls r = p # polls1" and "rec_clock r = now # clock1" and "resolve p = None"
  shows "\<exists>r1. record_body track r = Inr r1 \<and> rec_polls r1 = polls1 \<and> rec_clock r1 = clock1
          \<and> last_press_time r1 = last_press_time r
          \<and> recording_status r1 = recording_status r \<and> rec_log r1 = rec_log r"
proof -
  obtain b st1 where cb: "check_buttons p (rec_buttons r) = (b, st1)"
    by (cases "check_buttons p (rec_buttons r)")
  with check_buttons_resolve [of p "rec_buttons r"] assms(3) have "\<not> b" by simp
  with cb assms(1,2) show ?thesis
    by (simp add: record_body_def Let_def)
qed

lemma record_body_pressed:
  assumes "rec_polls r = p # polls1" and "rec_clock r = now # now2 # clock'"
    and "resolve p = Some c"
    and "dropWhile (\<lambda>q. resolve q \<noteq> None) polls1 = q # polls'"
    and "get_start_mem_location track = Some s"
  shows "\<exists>r1. record_body track r = Inr r1 \<and> rec_polls r1 = polls' \<and> rec_clock r1 = clock'
          \<and> last_press_time r1 = now2
          \<and> recording_status r1 = (recording_status r \<and> c \<noteq> Record)
          \<and> rec_log r1 = rec_log r @
               (if c \<in> {Play, SelectTrack} then []
                else [(sint (now - last_press_time r), kind_byte c)])"
proof -
  obtain b st1 where cb: "check_buttons p (rec_buttons r) = (b, st1)"
    by (cases "check_buttons p (rec_buttons r)")
  with check_buttons_resolve [of p "rec_buttons r"] assms(3)
  have b: "b" and input: "userInput st1 = command_code c" by simp_all
  from wait_for_release_dropWhile [OF assms(4), of st1] obtain st2 where
    release: "wait_for_release polls1 st1 = Some (st2, polls')" by blast
  show ?thesis
    using cb b input release assms(1,2,5)
    by (cases c)
       (simp_all add: record_body_def record_press_def record_event_start Let_def)
qed

lemma record_loop_session:
  "pressed_events since polls clock = Some evs \<Longrightarrow>
   rec_polls r = polls \<Longrightarrow> rec_clock r = clock \<Longrightarrow> last_press_time r = since \<Longrightarrow>
   recording_status r \<Longrightarrow> get_start_mem_location track = Some s \<Longrightarrow>
   \<exists>r'. record_loop track r = Inr r'
      \<and> rec_log r' = rec_log r @ map (\<lambda>x. (as_long (fst x), kind_byte (snd x))) evs"
proof (induction since polls clock arbitrary: evs r rule: pressed_events.induct)
  case (1 since polls)
  then show ?case by simp
next
  case (2 since now clock)
  then show ?case by simp
next
  case (3 since p polls now clock)
  note running = "3.prems"(5) and start = "3.prems"(6)
  show ?case
  proof (cases "resolve p")
    case None
    from record_body_idle [OF "3.prems"(2,3) None, of track] obtain r1 where
      r1: "record_body track r = Inr r1" "rec_polls r1 = polls" "rec_clock r1 = clock"
        "last_press_time r1 = last_press_time r" "recording_status r1 = recording_status r"
        "rec_log r1 = rec_log r"
      by blast
    have loop: "record_loop track r = record_loop track r1"
      using running r1(1) by (subst record_loop.simps) simp
    from "3.prems"(1) None have "pressed_events since polls clock = Some evs" by simp
    from "3.IH"(1) [OF None this r1(2,3) _ _ start] r1(4,5) "3.prems"(4) running
    obtain r' where "record_loop track r1 = Inr r'"
      "rec_log r' = rec_log r1 @ map (\<lambda>x. (as_long (fst x), kind_byte (snd x))) evs"
      by auto
    with loop r1(6) show ?thesis by simp
  next
    case (Some c)
    from pressed_events_step [OF "3.prems"(1) Some] obtain q polls' now2 clock' where
      dw: "dropWhile (\<lambda>q. resolve q \<noteq> None) polls = q # polls'" and ck: "clock = now2 # clock'"
      and stop: "c = Record \<longrightarrow> evs = [(uint (now - since), Record)]"
      and skip: "c \<in> {Play, SelectTrack} \<longrightarrow> pressed_events now2 polls' clock' = Some evs"
      and press: "c \<in> {Yes, No, Snake} \<longrightarrow>
         (\<exists>evs'. pressed_events now2 polls' clock' = Some evs' \<and> evs = (uint (now - since), c) # evs')"
      by blast
    have clock: "rec_clock r = now # now2 # clock'"
      using "3.prems"(3) ck by simp
    from record_body_pressed [OF "3.prems"(2) clock Some dw start] obtain r1 where
      r1: "record_body track r = Inr r1" "rec_polls r1 = polls'" "rec_clock r1 = clock'"
        "last_press_time r1 = now2" "recording_status r1 = (recording_status r \<and> c \<noteq> Record)"
        "rec_log r1 = rec_log r @
               (if c \<in> {Play, SelectTrack} then []
                else [(sint (now - last_press_time r), kind_byte c)])"
      by blast
    have loop: "record_loop track r = record_loop track r1"
      using running r1(1) by (subst record_loop.simps) simp
    have elapsed: "sint (now - last_press_time r) = as_long (uint (now - since))"
      using "3.prems"(4) by (simp add: as_long_uint)
    have ih: "\<exists>r'. record_loop track r1 = Inr r'
        \<and> rec_log r' = rec_log r1 @ map (\<lambda>x. (as_long (fst x), kind_byte (snd x))) evs'"
      if "c \<noteq> Record" "pressed_events now2 polls' clock' = Some evs'" for evs'
    proof -
      have "recording_status r1" using r1(5) running that(1) by simp
      with that "3.IH"(2-6) [OF Some dw ck _ _ r1(2,3,4) _ start] show ?thesis
        by (cases c) auto
    qed
    show ?thesis
    proof (cases "c = Record")
      case True
      then have "\<not> recording_status r1" using r1(5) by simp
      then have "record_loop track r1 = Inr r1"
        by (subst record_loop.simps) simp
      with loop True stop r1(6) elapsed show ?thesis by simp
    next
      case False
      show ?thesis
      proof (cases "c \<in> {Play, SelectTrack}")
        case True
        with skip have "pressed_events now2 polls' clock' = Some evs" by blast
        from ih [OF False this] True r1(6) loop show ?thesis by auto
      next
        case other: False
        with False have "c \<in> {Yes, No, Snake}" by (cases c) simp_all
        with press obtain evs' where evs': "pressed_events now2 polls' clock' = Some evs'"
          "evs = (uint (now - since), c) # evs'" by auto
        from ih [OF False evs'(1)] obtain r' where "record_loop track r1 = Inr r'"
          "rec_log r' = rec_log r1 @ map (\<lambda>x. (as_long (fst x), kind_byte (snd x))) evs'"
          by blast
        with loop other r1(6) elapsed evs'(2) show ?thesis by simp
      qed
    qed
  qed
qed

lemma action_for_kind:
  "c \<in> {Yes, No, Snake} \<Longrightarrow> action_for c = [action_of (kind_byte c)]"
  by (auto simp: action_of_def)

lemma actions_of_presses:
  "\<forall>x\<in>set presses. snd x \<in> {Yes, No, Snake} \<Longrightarrow>
   map (action_of \<circ> snd) (map (\<lambda>x. (fst x, kind_byte (snd x))) presses) =
     concat (map (action_for \<circ> snd) presses)"
  by (induction presses) (simp_all add: action_for_kind)

text \<open>
  C2, as the code has it. Take inputs that hold a complete recording session in the
  specification's sense: presses of Yes, No or Snake, at most 50 of them, then a press of
  Record, each event less than \<open>2^31\<close> ms after the one before. On a slot 1 to 5,
  \<^verbatim>\<open>record_track\<close> returns on these inputs, and \<^verbatim>\<open>play_track\<close> on the EEPROM it leaves
  calls exactly the actions of the presses, in their order; its waits are 100 ms times
  the elapsed times in units of 0.1 s, saturated at 255, of the first 50 events (the
  presses and, when it is among them, the End).
\<close>

theorem record_then_play:
  assumes "ee 0 \<in> {1, 2, 3, 4, 5}"
    and "recording_session polls clock = Some (presses @ [(e, Record)])"
    and "length presses \<le> 50"
    and "\<forall>x\<in>set (presses @ [(e, Record)]). fst x < 2 ^ 31"
  shows "\<exists>r trace. record_track ee st polls clock = Inr r
         \<and> (\<forall>x\<in>set presses. snd x \<in> {Yes, No, Snake})
         \<and> play_track (rec_store r) = Some trace
         \<and> filter is_action trace = concat (map (action_for \<circ> snd) presses)
         \<and> waits trace = map (\<lambda>x. 100 * tenths (fst x)) (take 50 (presses @ [(e, Record)]))"
proof -
  define evs where "evs = presses @ [(e, Record)]"
  from assms(2) obtain q polls' since clock' where
    dw: "dropWhile (\<lambda>q. resolve q \<noteq> None) polls = q # polls'"
    and ck: "clock = since # clock'"
    and pe: "pressed_events since polls' clock' = Some evs"
    by (auto simp: recording_session_def evs_def split: list.splits)
  from pressed_events_shape [OF pe] obtain ps e' where
    "evs = ps @ [(e', Record)]" "\<forall>x\<in>set ps. snd x \<in> {Yes, No, Snake}"
    and nonneg: "\<forall>x\<in>set evs. 0 \<le> fst x"
    by blast
  then have kinds: "\<forall>x\<in>set presses. snd x \<in> {Yes, No, Snake}"
    by (simp add: evs_def)
  from wait_for_release_dropWhile [OF dw, of st] obtain st' where
    wait: "wait_for_release polls st = Some (st', polls')"
    by blast
  from assms(1) obtain s where start: "get_start_mem_location (ee 0) = Some s"
    by (auto simp: get_start_mem_location_def)
  define r0 where "r0 =
    \<lparr>rec_store = ee, rec_buttons = st', rec_polls = polls', rec_clock = clock',
     last_press_time = since, recording_status = True, recording_length = 0, rec_log = []\<rparr>"
  have "\<exists>r'. record_loop (ee 0) r0 = Inr r'
      \<and> rec_log r' = rec_log r0 @ map (\<lambda>x. (as_long (fst x), kind_byte (snd x))) evs"
    by (rule record_loop_session [OF pe _ _ _ _ start]) (simp_all add: r0_def)
  then obtain r where loop: "record_loop (ee 0) r0 = Inr r"
    and log_long: "rec_log r = map (\<lambda>x. (as_long (fst x), kind_byte (snd x))) evs"
    by (auto simp: r0_def)
  have session: "record_track ee st polls clock = Inr r"
    using loop by (simp add: record_track_def wait ck r0_def)
  have "map (\<lambda>x. (as_long (fst x), kind_byte (snd x))) evs =
      map (\<lambda>x. (fst x, kind_byte (snd x))) evs"
  proof (rule map_cong [OF refl])
    fix x assume "x \<in> set evs"
    with nonneg assms(4) have "0 \<le> fst x" "fst x < 2 ^ 31"
      by (auto simp: evs_def)
    then show "(as_long (fst x), kind_byte (snd x)) = (fst x, kind_byte (snd x))"
      by (simp add: as_long_small)
  qed
  with log_long have log: "rec_log r = map (\<lambda>x. (fst x, kind_byte (snd x))) evs"
    by simp
  have capacity: "length (rec_log r) \<le> 51"
    using assms(3) by (simp add: log evs_def)
  have clock_ok: "\<forall>x\<in>set (rec_log r). 0 \<le> fst x"
    using nonneg by (auto simp: log)
  from play_recorded_log [OF assms(1) session capacity clock_ok] obtain logged e2 trace where
    played: "rec_log r = logged @ [(e2, END)]" "play_track (rec_store r) = Some trace"
      "filter is_action trace = map (action_of \<circ> snd) logged"
      "waits trace = map (\<lambda>x. 100 * tenths (fst x)) (take 50 (rec_log r))"
    by blast
  from played(1) have logged: "logged = map (\<lambda>x. (fst x, kind_byte (snd x))) presses"
    by (simp add: log evs_def)
  have actions: "filter is_action trace = concat (map (action_for \<circ> snd) presses)"
    using played(3) actions_of_presses [OF kinds] by (simp add: logged)
  have "waits trace =
      map (\<lambda>x. 100 * tenths (fst x)) (take 50 (map (\<lambda>x. (fst x, kind_byte (snd x))) evs))"
    using played(4) by (simp only: log)
  also have "\<dots> = map (\<lambda>x. 100 * tenths (fst x)) (take 50 evs)"
    by (simp add: take_map comp_def)
  finally have delays:
    "waits trace = map (\<lambda>x. 100 * tenths (fst x)) (take 50 (presses @ [(e, Record)]))"
    by (simp only: evs_def)
  show ?thesis
    using session kinds played(2) actions delays by blast
qed

theorem record_then_play_witness:
  "((\<lambda>_. 255)(0 := 1)) (0::int) \<in> {1, 2, 3, 4, 5 :: byte}
   \<and> recording_session
        [all_released, yes_held, all_released, no_held, all_released, snake_held, all_released,
         record_held, all_released]
        [1000, 6300, 6400, 11500, 11600, 40000, 40100, 40300, 40400]
      = Some ([(5300, Yes), (5100, No), (28400, Snake)] @ [(200, Record)])
   \<and> (\<exists>r trace.
         record_track ((\<lambda>_. 255)(0 := 1)) power_on
           [all_released, yes_held, all_released, no_held, all_released, snake_held, all_released,
            record_held, all_released]
           [1000, 6300, 6400, 11500, 11600, 40000, 40100, 40300, 40400] = Inr r
       \<and> play_track (rec_store r) = Some trace
       \<and> filter is_action trace = [Act_yes, Act_no, Act_snake]
       \<and> waits trace = [5300, 5100, 25500, 200])"
proof -
  have slot: "((\<lambda>_. 255)(0 := 1)) (0::int) \<in> {1, 2, 3, 4, 5 :: byte}"
    by simp
  have session: "recording_session
        [all_released, yes_held, all_released, no_held, all_released, snake_held, all_released,
         record_held, all_released]
        [1000, 6300, 6400, 11500, 11600, 40000, 40100, 40300, 40400]
      = Some ([(5300, Yes), (5100, No), (28400, Snake)] @ [(200, Record)])"
    by (simp add: recording_session_def resolve_def priority_def all_released_def yes_held_def
          no_held_def snake_held_def record_held_def)
  have capacity: "length [(5300 :: int, Yes), (5100, No), (28400, Snake)] \<le> 50"
    by simp
  have clock: "\<forall>x\<in>set ([(5300 :: int, Yes), (5100, No), (28400, Snake)] @ [(200, Record)]).
      fst x < 2 ^ 31"
    by simp
  from slot session capacity clock
    record_then_play [of "(\<lambda>_. 255)(0 := 1)"
      "[all_released, yes_held, all_released, no_held, all_released, snake_held, all_released,
        record_held, all_released]"
      "[1000, 6300, 6400, 11500, 11600, 40000, 40100, 40300, 40400]"
      "[(5300, Yes), (5100, No), (28400, Snake)]" 200 power_on]
  have "\<exists>r trace.
         record_track ((\<lambda>_. 255)(0 := 1)) power_on
           [all_released, yes_held, all_released, no_held, all_released, snake_held, all_released,
            record_held, all_released]
           [1000, 6300, 6400, 11500, 11600, 40000, 40100, 40300, 40400] = Inr r
       \<and> play_track (rec_store r) = Some trace
       \<and> filter is_action trace = [Act_yes, Act_no, Act_snake]
       \<and> waits trace = [5300, 5100, 25500, 200]"
    by (simp add: tenths_def)
  with slot session show ?thesis by blast
qed

section \<open>More presses than a region holds\<close>

lemma record_body_yes:
  assumes "rec_polls r = yes_held # all_released # ps" and "rec_clock r = t1 # t2 # cs"
    and "get_start_mem_location track = Some s"
  shows "\<exists>r1. record_body track r = Inr r1
          \<and> rec_polls r1 = ps \<and> rec_clock r1 = cs
          \<and> recording_status r1 = recording_status r
          \<and> map snd (rec_log r1) = map snd (rec_log r) @ [YES]"
  using assms
  by (simp add: record_body_def check_buttons_def yes_held_def all_released_def record_press_def
        record_event_start Let_def)

lemma record_body_record:
  assumes "rec_polls r = record_held # all_released # ps" and "rec_clock r = t1 # t2 # cs"
    and "get_start_mem_location track = Some s"
  shows "\<exists>r1. record_body track r = Inr r1
          \<and> \<not> recording_status r1
          \<and> map snd (rec_log r1) = map snd (rec_log r) @ [END]"
  using assms
  by (simp add: record_body_def check_buttons_def record_held_def all_released_def record_press_def
        record_event_start Let_def)

lemma record_loop_yes_presses:
  assumes "get_start_mem_location track = Some s"
  shows "rec_polls r = concat (replicate n [yes_held, all_released]) @ [record_held, all_released]
     \<Longrightarrow> length (rec_clock r) = 2 * n + 2 \<Longrightarrow> recording_status r
     \<Longrightarrow> \<exists>r'. record_loop track r = Inr r'
            \<and> map snd (rec_log r') = map snd (rec_log r) @ replicate n YES @ [END]"
proof (induction n arbitrary: r)
  case 0
  then obtain t1 t2 where clock: "rec_clock r = [t1, t2]"
    by (cases "rec_clock r"; cases "tl (rec_clock r)") auto
  from 0 have polls: "rec_polls r = record_held # all_released # []" by simp
  from record_body_record [OF polls _ assms, of t1 t2 "[]"] clock obtain r1 where
    r1: "record_body track r = Inr r1" "\<not> recording_status r1"
      "map snd (rec_log r1) = map snd (rec_log r) @ [END]"
    by auto
  have "record_loop track r1 = Inr r1"
    using r1(2) by (subst record_loop.simps) simp
  then have "record_loop track r = Inr r1"
    using "0.prems"(3) r1(1) by (subst record_loop.simps) simp
  with r1(3) show ?case by simp
next
  case (Suc n)
  then obtain t1 t2 cs where clock: "rec_clock r = t1 # t2 # cs" and cs: "length cs = 2 * n + 2"
    by (cases "rec_clock r"; cases "tl (rec_clock r)") auto
  from Suc.prems(1) have polls: "rec_polls r = yes_held # all_released
      # (concat (replicate n [yes_held, all_released]) @ [record_held, all_released])"
    by simp
  from record_body_yes [OF polls clock assms] obtain r1 where
    r1: "record_body track r = Inr r1"
      "rec_polls r1 = concat (replicate n [yes_held, all_released]) @ [record_held, all_released]"
      "rec_clock r1 = cs" "recording_status r1 = recording_status r"
      "map snd (rec_log r1) = map snd (rec_log r) @ [YES]"
    by blast
  from Suc.IH [OF r1(2)] r1(3,4) cs Suc.prems(3) obtain r' where
    r': "record_loop track r1 = Inr r'"
      "map snd (rec_log r') = map snd (rec_log r1) @ replicate n YES @ [END]"
    by auto
  have "record_loop track r = Inr r'"
    using Suc.prems(3) r1(1) r'(1) by (subst record_loop.simps) simp
  with r'(2) r1(5) show ?case by simp
qed


lemma resolve_samples:
  "resolve all_released = None" "resolve yes_held = Some Yes" "resolve record_held = Some Record"
  by (simp_all add: resolve_def priority_def all_released_def yes_held_def record_held_def)

lemma pressed_events_yes_presses:
  "length clock = 2 * n + 2 \<Longrightarrow>
   \<exists>evs. pressed_events since
            (concat (replicate n [yes_held, all_released]) @ [record_held, all_released]) clock
          = Some evs
     \<and> map snd evs = replicate n Yes @ [Record]"
proof (induction n arbitrary: since clock)
  case 0
  then obtain t1 t2 where "clock = [t1, t2]"
    by (cases clock; cases "tl clock") auto
  then show ?case by (simp add: resolve_samples)
next
  case (Suc n)
  then obtain t1 t2 cs where clock: "clock = t1 # t2 # cs" and cs: "length cs = 2 * n + 2"
    by (cases clock; cases "tl clock") auto
  from Suc.IH [OF cs, of t2] obtain evs where
    "pressed_events t2
       (concat (replicate n [yes_held, all_released]) @ [record_held, all_released]) cs = Some evs"
    "map snd evs = replicate n Yes @ [Record]"
    by blast
  then show ?case
    by (simp add: clock resolve_samples)
qed

text \<open>
  A session on track 1 with 51 presses of Yes before the press of Record: the inputs hold
  the 51 presses and the press of Record, the sketch logs 51 events of type Yes and the
  End, and playback right after it calls \<^verbatim>\<open>yes()\<close> 50 times.
\<close>

theorem record_51_presses_plays_50:
  "map_option (map snd) (recording_session polls51 clock51) = Some (replicate 51 Yes @ [Record])
   \<and> (case record_track ((\<lambda>_. 255)(0 := 1)) power_on polls51 clock51 of
      Inr r \<Rightarrow> (map snd (rec_log r), map_option (filter is_action) (play_track (rec_store r)))
    | Inl f \<Rightarrow> ([], None))
   = (replicate 51 YES @ [END], Some (replicate 50 Act_yes))"
proof -
  let ?ee = "(\<lambda>_::int. 255 :: byte)(0 := 1)"
  have "\<exists>evs. pressed_events 0
            (concat (replicate 51 [yes_held, all_released]) @ [record_held, all_released])
            (map (\<lambda>i. of_nat (1000 * i)) [1..<105])
          = Some evs
     \<and> map snd evs = replicate 51 Yes @ [Record]"
    by (rule pressed_events_yes_presses) simp
  then have pressed: "map_option (map snd) (recording_session polls51 clock51) =
      Some (replicate 51 Yes @ [Record])"
    by (auto simp: recording_session_def polls51_def clock51_def resolve_samples upt_conv_Cons)
  have start: "get_start_mem_location (?ee 0) = Some 1"
    by (simp add: get_start_mem_location_def)
  have wait: "wait_for_release polls51 power_on =
      Some (power_on, concat (replicate 51 [yes_held, all_released]) @ [record_held, all_released])"
    by (simp add: polls51_def check_buttons_def all_released_def power_on_def)
  have clock: "clock51 = 0 # map (\<lambda>i. of_nat (1000 * i)) [1..<105]"
    by (simp add: clock51_def upt_conv_Cons)
  define r0 where "r0 =
    \<lparr>rec_store = ?ee, rec_buttons = power_on,
     rec_polls = concat (replicate 51 [yes_held, all_released]) @ [record_held, all_released],
     rec_clock = map (\<lambda>i. of_nat (1000 * i)) [1..<105],
     last_press_time = 0, recording_status = True, recording_length = 0, rec_log = []\<rparr>"
  have "\<exists>r'. record_loop (?ee 0) r0 = Inr r'
            \<and> map snd (rec_log r') = map snd (rec_log r0) @ replicate 51 YES @ [END]"
    by (rule record_loop_yes_presses [OF start]) (simp_all add: r0_def)
  then obtain r where loop: "record_loop (?ee 0) r0 = Inr r"
    and all_kinds: "map snd (rec_log r) = replicate 51 YES @ [END]"
    by (auto simp: r0_def)
  have session: "record_track ?ee power_on polls51 clock51 = Inr r"
    using loop by (simp add: record_track_def wait clock r0_def)
  from record_track_stores [OF session start] obtain new e where
    log: "rec_log r = new @ [(e, END)]"
    and kinds: "\<forall>x\<in>set new. snd x \<in> {YES, NO, SNAKE}"
    and stored: "length new < 256 \<longrightarrow> rec_store r = store_events 1 0 (new @ [(e, END)]) ?ee"
    by blast
  from all_kinds log have new_kinds: "map snd new = replicate 51 YES"
    by simp
  then have len: "length new = 51"
    by (metis length_map length_replicate)
  with stored have store: "rec_store r = store_events 1 0 (new @ [(e, END)]) ?ee"
    by simp
  have track: "rec_store r 0 = 1"
    by (simp add: store store_events_below)
  have seen: "visited (rec_store r) 1 = 50"
    using stored_visited [OF store kinds] len by simp
  have "filter is_action (concat (map (visit (rec_store r) 1) [0..<50])) =
      map (action_of \<circ> snd) (take 50 new)"
    by (rule stored_actions [OF store kinds]) (simp add: len)
  also have "\<dots> = map action_of (take 50 (map snd new))"
    by (simp add: take_map)
  also have "\<dots> = replicate 50 Act_yes"
    by (simp add: new_kinds action_of_def)
  finally have "map_option (filter is_action) (play_track (rec_store r)) =
      Some (replicate 50 Act_yes)"
    using track seen
    by (simp add: play_track_def get_start_mem_location_def play_loop_visits)
  then show ?thesis
    using pressed by (simp add: session all_kinds)
qed

section \<open>The End event of a recording\<close>

text \<open>
  C4. On the second press of Record the loop calls \<^verbatim>\<open>record_event\<close> with the type
  \<^verbatim>\<open>END\<close> and with \<^verbatim>\<open>event_delay\<close>, the elapsed time, as for every other event. A
  session on track 1 whose only press is Record, 200 ms after the start, ends with the
  pair (2, END) in the cells 1 and 2, not (0, END).
\<close>

theorem record_track_end_delay:
  "(case record_track ((\<lambda>_. 255)(0 := 1)) power_on
           [all_released, record_held, all_released] [0, 200, 250] of
      Inr r \<Rightarrow> Some (rec_store r 1, rec_store r 2, recording_status r, rec_log r)
    | Inl f \<Rightarrow> None)
   = Some (2, END, False, [(200, END)])"
  by (simp add: record_track_def record_loop.simps record_body_def record_press_def
        record_event_def get_start_mem_location_def check_buttons_def all_released_def
        record_held_def power_on_def event_delay_of_def Let_def)

end
